theory Spec2Isabelle
  imports Complex_Main "HOL-Library.Word" "HOL-Library.Log_Nat"
begin

unbundle bit_operations_syntax

section \<open>The bit writer (toojpeg\_17.h, struct BitWriter)\<close>

text \<open>
  Machine integers are words of the width the source declares: \<open>uint8_t\<close> is
  \<open>8 word\<close>, \<open>uint16_t\<close> is \<open>16 word\<close>, \<open>uint32_t\<close> is \<open>32 word\<close>.
  The callback \<open>output\<close> of the source receives byte spans; the model keeps the
  concatenation of everything it was handed, in the order of the calls.
\<close>

type_synonym u8 = "8 word"
type_synonym u16 = "16 word"
type_synonym u32 = "32 word"

text \<open>\<open>struct BitCode\<close>: a Huffman code and the number of its valid bits.\<close>

record BitCode =
  code :: u16
  numBits :: u8

text \<open>
  \<open>struct BitWriter\<close>: \<open>sink\<close> is what the sink has received so far,
  \<open>buffer_data\<close> and \<open>buffer_numBits\<close> are the two fields of its \<open>BitBuffer\<close>.
\<close>

record BitWriter =
  sink :: "u8 list"
  buffer_data :: u32
  buffer_numBits :: u8

text \<open>\<open>explicit BitWriter(WRITE_BACK &&output_)\<close>: nothing written, an empty buffer.\<close>

definition new_BitWriter :: BitWriter where
  "new_BitWriter = \<lparr>sink = [], buffer_data = 0, buffer_numBits = 0\<rparr>"

text \<open>\<open>operator<<(std::uint8_t)\<close> and the three span overloads: straight to the sink.\<close>

definition put_byte :: "BitWriter \<Rightarrow> u8 \<Rightarrow> BitWriter" where
  "put_byte w oneByte = w\<lparr>sink := sink w @ [oneByte]\<rparr>"

definition put_bytes :: "BitWriter \<Rightarrow> u8 list \<Rightarrow> BitWriter" where
  "put_bytes w bs = w\<lparr>sink := sink w @ bs\<rparr>"

text \<open>
  The \<open>while (buffer.numBits >= 8)\<close> loop of \<open>operator<<(const BitCode &)\<close>, with
  \<open>clear_upper_bits = false\<close> (the only instantiation the encoder uses). A shift of
  the 32-bit buffer by 32 or more is undefined in C++; \<open>drop_bit\<close> and \<open>push_bit\<close>
  give 0 there. The encoder keeps fewer than 8 bits between calls and appends at most
  16, so its shifts stay below 24.
\<close>

function write_full_bytes :: "BitWriter \<Rightarrow> BitWriter" where
  "write_full_bytes w =
     (if 8 \<le> buffer_numBits w then
        let n = buffer_numBits w - 8;
            oneByte = (ucast (drop_bit (unat n) (buffer_data w)) :: u8);
            w1 = put_byte (w\<lparr>buffer_numBits := n\<rparr>) oneByte;
            w2 = (if oneByte = 0xFF then put_byte w1 0 else w1)
        in write_full_bytes w2
      else w)"
  by pat_completeness auto
termination
proof (relation "measure (\<lambda>w. unat (buffer_numBits w))")
  show "wf (measure (\<lambda>w. unat (buffer_numBits w)))" by simp
next
  fix w :: BitWriter and n oneByte w1 w2
  assume le: "8 \<le> buffer_numBits w"
    and n: "n = buffer_numBits w - 8"
    and w1: "w1 = put_byte (w\<lparr>buffer_numBits := n\<rparr>) oneByte"
    and w2: "w2 = (if oneByte = 0xFF then put_byte w1 0 else w1)"
  have "buffer_numBits w2 = n"
    using w1 w2 by (simp add: put_byte_def)
  moreover have "unat n < unat (buffer_numBits w)"
    using le n by (simp add: word_le_nat_alt unat_sub)
  ultimately show "(w2, w) \<in> measure (\<lambda>w. unat (buffer_numBits w))"
    by simp
qed

declare write_full_bytes.simps [simp del]

text \<open>\<open>BitWriter &operator<<(const BitCode &data)\<close>.\<close>

definition put_bits :: "BitWriter \<Rightarrow> BitCode \<Rightarrow> BitWriter" where
  "put_bits w d =
     write_full_bytes
       (w\<lparr>buffer_numBits := buffer_numBits w + numBits d,
          buffer_data := push_bit (unat (numBits d)) (buffer_data w) OR ucast (code d)\<rparr>)"

text \<open>\<open>void flush()\<close>: seven 1-bits fill the last byte.\<close>

definition flush :: "BitWriter \<Rightarrow> BitWriter" where
  "flush w = put_bits w \<lparr>code = 0x7F, numBits = 7\<rparr>"

text \<open>\<open>void addMarker(std::uint8_t id, uint16_t length)\<close>.\<close>

definition addMarker :: "BitWriter \<Rightarrow> u8 \<Rightarrow> u16 \<Rightarrow> BitWriter" where
  "addMarker w ident len =
     put_byte (put_byte (put_byte (put_byte w 0xFF) ident) (ucast (drop_bit 8 len)))
       (ucast (len AND 0xFF))"

text \<open>
  Byte stuffing as a property of a byte sequence: every \<open>0xFF\<close> is immediately
  followed by \<open>0x00\<close>.
\<close>

fun stuffed :: "u8 list \<Rightarrow> bool" where
  "stuffed [] = True"
| "stuffed [a] = (a \<noteq> 0xFF)"
| "stuffed (a # b # r) = (if a = 0xFF then b = 0 \<and> stuffed r else stuffed (b # r))"

text \<open>
  \<open>appends_stuffed w w'\<close>: the writer \<open>w'\<close> has received what \<open>w\<close> had
  received, and after it a byte-stuffed sequence.
\<close>

definition appends_stuffed :: "BitWriter \<Rightarrow> BitWriter \<Rightarrow> bool" where
  "appends_stuffed w w' = (\<exists>bs. sink w' = sink w @ bs \<and> stuffed bs)"

section \<open>Constants of jpeg\_constants.h\<close>

text \<open>
  The header \<open>jpeg_constants.h\<close> is included by \<open>toojpeg_17.h\<close>. The two constants
  that steer control flow and array sizes are modelled below; the ten tables whose
  contents no function of the encoder inspects (it copies them into the stream or builds
  Huffman codes from them) are a parameter of the model, the record \<open>jpeg_constants\<close>.
\<close>

text \<open>
  Modelled from the spec: \<open>CodeWordLimit\<close> of jpeg\_constants.h, which the spec gives
  as LIMIT = 2048.
\<close>

definition CodeWordLimit :: nat where
  "CodeWordLimit = 2048"

text \<open>
  Modelled from the spec: \<open>ZigZagInv\<close> of jpeg\_constants.h, the standard JPEG zig-zag
  permutation: entry \<open>i\<close> is the row-major position of the \<open>i\<close>-th coefficient in
  zig-zag order.
\<close>

definition ZigZagInv :: "nat list" where
  "ZigZagInv =
    [ 0,  1,  8, 16,  9,  2,  3, 10,
     17, 24, 32, 25, 18, 11,  4,  5,
     12, 19, 26, 33, 40, 48, 41, 34,
     27, 20, 13,  6,  7, 14, 21, 28,
     35, 42, 49, 56, 57, 50, 43, 36,
     29, 22, 15, 23, 30, 37, 44, 51,
     58, 59, 52, 45, 38, 31, 39, 46,
     53, 60, 61, 54, 47, 55, 62, 63]"

text \<open>
  The tables of jpeg\_constants.h, as a parameter: the two default quantization matrices
  (64 entries each, read through \<open>ZigZagInv\<close>) and the four Huffman specifications
  (16 code counts and the symbol values).
\<close>

record jpeg_constants =
  DefaultQuantLuminance_A :: "u8 list"
  DefaultQuantChrominance_A :: "u8 list"
  DcLuminanceCodesPerBitsize :: "u8 list"
  DcLuminanceValues :: "u8 list"
  AcLuminanceCodesPerBitsize :: "u8 list"
  AcLuminanceValues :: "u8 list"
  DcChrominanceCodesPerBitsize :: "u8 list"
  DcChrominanceValues :: "u8 list"
  AcChrominanceCodesPerBitsize :: "u8 list"
  AcChrominanceValues :: "u8 list"

text \<open>The array sizes that the declarations of the header fix.\<close>

definition constants_sized :: "jpeg_constants \<Rightarrow> bool" where
  "constants_sized K =
     (length (DefaultQuantLuminance_A K) = 64 \<and> length (DefaultQuantChrominance_A K) = 64 \<and>
      length (DcLuminanceCodesPerBitsize K) = 16 \<and> length (DcLuminanceValues K) = 12 \<and>
      length (AcLuminanceCodesPerBitsize K) = 16 \<and> length (AcLuminanceValues K) = 162 \<and>
      length (DcChrominanceCodesPerBitsize K) = 16 \<and> length (DcChrominanceValues K) = 12 \<and>
      length (AcChrominanceCodesPerBitsize K) = 16 \<and> length (AcChrominanceValues K) = 162)"

text \<open>
  Modelled from the spec: the tables of jpeg\_constants.h with the values the spec names,
  the JPEG Annex K quantization matrices (row-major) and the four typical Huffman tables
  of the JPEG standard.
\<close>

definition annexK :: jpeg_constants where
  "annexK = \<lparr>
     DefaultQuantLuminance_A =
       [16, 11, 10, 16, 24, 40, 51, 61,
        12, 12, 14, 19, 26, 58, 60, 55,
        14, 13, 16, 24, 40, 57, 69, 56,
        14, 17, 22, 29, 51, 87, 80, 62,
        18, 22, 37, 56, 68, 109, 103, 77,
        24, 35, 55, 64, 81, 104, 113, 92,
        49, 64, 78, 87, 103, 121, 120, 101,
        72, 92, 95, 98, 112, 100, 103, 99],
     DefaultQuantChrominance_A =
       [17, 18, 24, 47, 99, 99, 99, 99,
        18, 21, 26, 66, 99, 99, 99, 99,
        24, 26, 56, 99, 99, 99, 99, 99,
        47, 66, 99, 99, 99, 99, 99, 99,
        99, 99, 99, 99, 99, 99, 99, 99,
        99, 99, 99, 99, 99, 99, 99, 99,
        99, 99, 99, 99, 99, 99, 99, 99,
        99, 99, 99, 99, 99, 99, 99, 99],
     DcLuminanceCodesPerBitsize = [0, 1, 5, 1, 1, 1, 1, 1, 1, 0, 0, 0, 0, 0, 0, 0],
     DcLuminanceValues = [0, 1, 2, 3, 4, 5, 6, 7, 8, 9, 10, 11],
     AcLuminanceCodesPerBitsize = [0, 2, 1, 3, 3, 2, 4, 3, 5, 5, 4, 4, 0, 0, 1, 125],
     AcLuminanceValues =
       [0x01, 0x02, 0x03, 0x00, 0x04, 0x11, 0x05, 0x12, 0x21, 0x31, 0x41, 0x06, 0x13, 0x51, 0x61, 0x07,
        0x22, 0x71, 0x14, 0x32, 0x81, 0x91, 0xA1, 0x08, 0x23, 0x42, 0xB1, 0xC1, 0x15, 0x52, 0xD1, 0xF0,
        0x24, 0x33, 0x62, 0x72, 0x82, 0x09, 0x0A, 0x16, 0x17, 0x18, 0x19, 0x1A, 0x25, 0x26, 0x27, 0x28,
        0x29, 0x2A, 0x34, 0x35, 0x36, 0x37, 0x38, 0x39, 0x3A, 0x43, 0x44, 0x45, 0x46, 0x47, 0x48, 0x49,
        0x4A, 0x53, 0x54, 0x55, 0x56, 0x57, 0x58, 0x59, 0x5A, 0x63, 0x64, 0x65, 0x66, 0x67, 0x68, 0x69,
        0x6A, 0x73, 0x74, 0x75, 0x76, 0x77, 0x78, 0x79, 0x7A, 0x83, 0x84, 0x85, 0x86, 0x87, 0x88, 0x89,
        0x8A, 0x92, 0x93, 0x94, 0x95, 0x96, 0x97, 0x98, 0x99, 0x9A, 0xA2, 0xA3, 0xA4, 0xA5, 0xA6, 0xA7,
        0xA8, 0xA9, 0xAA, 0xB2, 0xB3, 0xB4, 0xB5, 0xB6, 0xB7, 0xB8, 0xB9, 0xBA, 0xC2, 0xC3, 0xC4, 0xC5,
        0xC6, 0xC7, 0xC8, 0xC9, 0xCA, 0xD2, 0xD3, 0xD4, 0xD5, 0xD6, 0xD7, 0xD8, 0xD9, 0xDA, 0xE1, 0xE2,
        0xE3, 0xE4, 0xE5, 0xE6, 0xE7, 0xE8, 0xE9, 0xEA, 0xF1, 0xF2, 0xF3, 0xF4, 0xF5, 0xF6, 0xF7, 0xF8,
        0xF9, 0xFA],
     DcChrominanceCodesPerBitsize = [0, 3, 1, 1, 1, 1, 1, 1, 1, 1, 1, 0, 0, 0, 0, 0],
     DcChrominanceValues = [0, 1, 2, 3, 4, 5, 6, 7, 8, 9, 10, 11],
     AcChrominanceCodesPerBitsize = [0, 2, 1, 2, 4, 4, 3, 4, 7, 5, 4, 4, 0, 1, 2, 119],
     AcChrominanceValues =
       [0x00, 0x01, 0x02, 0x03, 0x11, 0x04, 0x05, 0x21, 0x31, 0x06, 0x12, 0x41, 0x51, 0x07, 0x61, 0x71,
        0x13, 0x22, 0x32, 0x81, 0x08, 0x14, 0x42, 0x91, 0xA1, 0xB1, 0xC1, 0x09, 0x23, 0x33, 0x52, 0xF0,
        0x15, 0x62, 0x72, 0xD1, 0x0A, 0x16, 0x24, 0x34, 0xE1, 0x25, 0xF1, 0x17, 0x18, 0x19, 0x1A, 0x26,
        0x27, 0x28, 0x29, 0x2A, 0x35, 0x36, 0x37, 0x38, 0x39, 0x3A, 0x43, 0x44, 0x45, 0x46, 0x47, 0x48,
        0x49, 0x4A, 0x53, 0x54, 0x55, 0x56, 0x57, 0x58, 0x59, 0x5A, 0x63, 0x64, 0x65, 0x66, 0x67, 0x68,
        0x69, 0x6A, 0x73, 0x74, 0x75, 0x76, 0x77, 0x78, 0x79, 0x7A, 0x82, 0x83, 0x84, 0x85, 0x86, 0x87,
        0x88, 0x89, 0x8A, 0x92, 0x93, 0x94, 0x95, 0x96, 0x97, 0x98, 0x99, 0x9A, 0xA2, 0xA3, 0xA4, 0xA5,
        0xA6, 0xA7, 0xA8, 0xA9, 0xAA, 0xB2, 0xB3, 0xB4, 0xB5, 0xB6, 0xB7, 0xB8, 0xB9, 0xBA, 0xC2, 0xC3,
        0xC4, 0xC5, 0xC6, 0xC7, 0xC8, 0xC9, 0xCA, 0xD2, 0xD3, 0xD4, 0xD5, 0xD6, 0xD7, 0xD8, 0xD9, 0xDA,
        0xE2, 0xE3, 0xE4, 0xE5, 0xE6, 0xE7, 0xE8, 0xE9, 0xEA, 0xF2, 0xF3, 0xF4, 0xF5, 0xF6, 0xF7, 0xF8,
        0xF9, 0xFA]\<rparr>"

section \<open>Reads outside an array\<close>

text \<open>
  C++ leaves a read outside an array undefined. The model makes it a value: a function
  that can read outside an array returns \<open>fault + 'a\<close>, with \<open>Inl\<close> for the fault.
\<close>

datatype fault = QuantizedOutOfBounds | CodewordsOutOfBounds | HuffmanOutOfBounds

section \<open>Codewords (toojpeg\_17.h, codewords\_for\_quantized\_dct)\<close>

text \<open>
  The loop \<open>for (uint16_t value = 1; value < CodeWordLimit; value++)\<close>. The counter
  stays below \<open>2 ^ 16\<close>, so it is a \<open>nat\<close>; \<open>numBits\<close> and \<open>mask\<close> have the widths
  of the source, and \<open>mask - value\<close> is narrowed to the 16 bits of \<open>BitCode::code\<close>.
  \<open>codewords[-value]\<close> is \<open>codewordsArray[CodeWordLimit - value]\<close>.
\<close>

function codewords_loop :: "nat \<Rightarrow> BitCode list \<times> u8 \<times> u32 \<Rightarrow> BitCode list" where
  "codewords_loop v (codewordsArray, numBits0, mask0) =
     (if v < CodeWordLimit then
        let (numBits1, mask1) =
              (if mask0 < of_nat v then (numBits0 + 1, push_bit 1 mask0 OR 1)
               else (numBits0, mask0));
            a1 = codewordsArray[CodeWordLimit - v :=
                   \<lparr>code = ucast (mask1 - of_nat v), numBits = numBits1\<rparr>];
            a2 = a1[CodeWordLimit + v := \<lparr>code = of_nat v, numBits = numBits1\<rparr>]
        in codewords_loop (v + 1) (a2, numBits1, mask1)
      else codewordsArray)"
  by pat_completeness auto
termination
  by (relation "measure (\<lambda>(v, _). CodeWordLimit - v)") auto

declare codewords_loop.simps [simp del]

text \<open>
  \<open>std::array<BitCode, 2 * CodeWordLimit> codewordsArray{}\<close> is value-initialised:
  every entry starts as code 0 with 0 bits.
\<close>

definition codewords_for_quantized_dct :: "BitCode list" where
  "codewords_for_quantized_dct =
     codewords_loop 1 (replicate (2 * CodeWordLimit) \<lparr>code = 0, numBits = 0\<rparr>, 1, 1)"

text \<open>
  \<open>const BitCode *codewords = &codewordsArray[CodeWordLimit]\<close> and the read
  \<open>codewords[v]\<close> of encode\_block. The array covers \<open>-CodeWordLimit \<le> v < CodeWordLimit\<close>.
\<close>

definition codewords :: "int \<Rightarrow> fault + BitCode" where
  "codewords v =
     (if - int CodeWordLimit \<le> v \<and> v < int CodeWordLimit
      then Inr (codewords_for_quantized_dct ! nat (v + int CodeWordLimit))
      else Inl CodewordsOutOfBounds)"

section \<open>Quantization tables (toojpeg\_17.h, quant\_table)\<close>

text \<open>\<open>std::clamp(v, lo, hi)\<close>.\<close>

definition clamp :: "int \<Rightarrow> int \<Rightarrow> int \<Rightarrow> int" where
  "clamp v lo hi = (if v < lo then lo else if hi < v then hi else v)"

text \<open>
  \<open>quant_table(defaults, quality)\<close>: the parameter \<open>quality\<close> is an
  \<open>unsigned char\<close>; the product and the division are \<open>int\<close> arithmetic on
  non-negative values.
\<close>

definition quant_entry :: "u8 list \<Rightarrow> u8 \<Rightarrow> nat \<Rightarrow> u8" where
  "quant_entry defaults quality i =
     (let luminance = (uint (defaults ! (ZigZagInv ! i)) * uint quality + 50) div 100
      in word_of_int (clamp luminance 1 255))"

definition quant_table :: "u8 list \<Rightarrow> u8 \<Rightarrow> u8 list" where
  "quant_table defaults quality =
     fold (\<lambda>i quantLuminance. quantLuminance[i := quant_entry defaults quality i])
       [0..<64] (replicate 64 0)"

text \<open>
  The conversion of writeJpegQuality (and of the template writeJpeg):
  \<open>auto quality = quality_ < 50 ? 5000 / quality_ : 200 - quality_ * 2\<close>, an \<open>int\<close>.
\<close>

definition quality_factor :: "u8 \<Rightarrow> int" where
  "quality_factor quality_arg =
     (if uint quality_arg < 50 then 5000 div uint quality_arg else 200 - uint quality_arg * 2)"

text \<open>
  The call \<open>quant_table(defaults, quality)\<close> of writeJpegQuality: the \<open>int\<close> is
  converted to the \<open>unsigned char\<close> parameter, that is reduced modulo 256.
\<close>

definition quant_table_for :: "u8 list \<Rightarrow> u8 \<Rightarrow> u8 list" where
  "quant_table_for defaults quality_arg =
     quant_table defaults (word_of_int (quality_factor quality_arg))"

text \<open>
  The quantization builder in the words of the spec (section 4.C), for comparison with
  \<open>quant_table_for\<close>: the scale factor \<open>s = 5000/q\<close> if \<open>q < 50\<close>, else
  \<open>200 - 2 q\<close>, and \<open>Q[i] = clamp((D[i] s + 50)/100, 1, 255)\<close> for a default
  matrix \<open>D\<close> in zig-zag order.
\<close>

definition spec_scale_factor :: "int \<Rightarrow> int" where
  "spec_scale_factor q = (if q < 50 then 5000 div q else 200 - 2 * q)"

definition spec_quant_entry :: "int list \<Rightarrow> int \<Rightarrow> nat \<Rightarrow> int" where
  "spec_quant_entry D q i = clamp ((D ! i * spec_scale_factor q + 50) div 100) 1 255"

text \<open>A default matrix of the header, read in zig-zag order.\<close>

definition zigzag_order :: "u8 list \<Rightarrow> int list" where
  "zigzag_order defaults = map (\<lambda>i. uint (defaults ! (ZigZagInv ! i))) [0..<64]"

section \<open>Huffman tables (toojpeg\_17.cpp, generateHuffmanTable)\<close>

text \<open>
  The inner loop \<open>for (i = 0; i < numCodes[numBits - 1]; i++)\<close>, which takes the next
  value with \<open>*values++\<close>. The tables are built at compile time (\<open>constexpr\<close>), where
  a read past the end of \<open>values\<close> does not compile; the model stops there.
\<close>

fun assign_codes :: "nat \<Rightarrow> u8 \<Rightarrow> BitCode list \<times> u16 \<times> u8 list \<Rightarrow> BitCode list \<times> u16 \<times> u8 list" where
  "assign_codes 0 nb st = st"
| "assign_codes (Suc n) nb (result, huffmanCode, []) = (result, huffmanCode, [])"
| "assign_codes (Suc n) nb (result, huffmanCode, v # values) =
     assign_codes n nb
       (result[unat v := \<lparr>code = huffmanCode, numBits = nb\<rparr>], huffmanCode + 1, values)"

definition generateHuffmanTable :: "u8 list \<Rightarrow> u8 list \<Rightarrow> BitCode list" where
  "generateHuffmanTable numCodes values =
     fst (fold (\<lambda>nb st.
                  case assign_codes (unat (numCodes ! (nb - 1))) (of_nat nb) st of
                    (result, huffmanCode, rest) \<Rightarrow> (result, push_bit 1 huffmanCode, rest))
            [1..<17] (replicate 256 \<lparr>code = 0, numBits = 0\<rparr>, 0, values))"

text \<open>\<open>huffman(luminance)\<close>: the DC and the AC table of the channel.\<close>

definition huffman :: "jpeg_constants \<Rightarrow> bool \<Rightarrow> BitCode list \<times> BitCode list" where
  "huffman K luminance =
     (if luminance
      then (generateHuffmanTable (DcLuminanceCodesPerBitsize K) (DcLuminanceValues K),
            generateHuffmanTable (AcLuminanceCodesPerBitsize K) (AcLuminanceValues K))
      else (generateHuffmanTable (DcChrominanceCodesPerBitsize K) (DcChrominanceValues K),
            generateHuffmanTable (AcChrominanceCodesPerBitsize K) (AcChrominanceValues K)))"

text \<open>A read \<open>table[i]\<close> of one of the 256-entry Huffman tables.\<close>

definition huffman_at :: "BitCode list \<Rightarrow> nat \<Rightarrow> fault + BitCode" where
  "huffman_at table i = (if i < length table then Inr (table ! i) else Inl HuffmanOutOfBounds)"

section \<open>Floating point\<close>

text \<open>
  The encoder computes samples, the DCT and the scaled tables in \<open>float\<close>. No property
  below depends on the values these computations give, so the type of floats is a type
  parameter \<open>'f\<close> and the operations on it are a parameter of the model:
  \<^item> \<open>flt\<close>: the conversion of an integer value (a pixel byte, a sum of four) to float;
  \<^item> \<open>sub128\<close>: \<open>x - 128\<close>;
  \<^item> \<open>rgb2y\<close>, \<open>rgb2cb\<close>, \<open>rgb2cr\<close>: the three functions of toojpeg\_17.cpp;
  \<^item> \<open>div4\<close>: \<open>x / 4\<close>;
  \<^item> \<open>scaled_luminance\<close>, \<open>scaled_chrominance\<close>: the two functions of toojpeg\_17.h
    that fold the AAN scale factors into a quantization table;
  \<^item> \<open>dct_scale scaled block k\<close>: entry \<open>k\<close> of the block after the row DCTs, the
    column DCTs and the multiplication with \<open>scaled\<close> (the first three loops of
    encode\_block, which work in place);
  \<^item> \<open>round_int\<close>: \<open>int(std::nearbyint(x))\<close>.
\<close>

record 'f float_ops =
  flt :: "int \<Rightarrow> 'f"
  sub128 :: "'f \<Rightarrow> 'f"
  rgb2y :: "'f \<Rightarrow> 'f \<Rightarrow> 'f \<Rightarrow> 'f"
  rgb2cb :: "'f \<Rightarrow> 'f \<Rightarrow> 'f \<Rightarrow> 'f"
  rgb2cr :: "'f \<Rightarrow> 'f \<Rightarrow> 'f \<Rightarrow> 'f"
  div4 :: "'f \<Rightarrow> 'f"
  scaled_luminance :: "u8 list \<Rightarrow> 'f list"
  scaled_chrominance :: "u8 list \<Rightarrow> 'f list"
  dct_scale :: "'f list \<Rightarrow> 'f list \<Rightarrow> nat \<Rightarrow> 'f"
  round_int :: "'f \<Rightarrow> int"

section \<open>The block encoder (toojpeg\_17.cpp, encode\_block)\<close>

text \<open>\<open>int16_t\<close> is a 16-bit word read with \<open>sint\<close>.\<close>

type_synonym i16 = "16 word"

text \<open>
  The loop \<open>for (auto i = 1; i < 8 * 8; i++)\<close> that quantizes in zig-zag order and
  finds \<open>posNonZero\<close>. The assignment \<open>quantized[i] = int(...)\<close> narrows the \<open>int\<close>
  to \<open>int16_t\<close>, and the test \<open>quantized[i] != 0\<close> reads the narrowed value.
  \<open>int16_t quantized[8 * 8]\<close> is not initialised: its first contents are the argument
  \<open>quantized0\<close>.
\<close>

definition quantize_step :: "'f float_ops \<Rightarrow> 'f list \<Rightarrow> nat \<Rightarrow> i16 list \<times> nat \<Rightarrow> i16 list \<times> nat" where
  "quantize_step fp block64 i = (\<lambda>(quantized, posNonZero).
     let v = block64 ! (ZigZagInv ! i);
         q = (word_of_int (round_int fp v) :: i16)
     in (quantized[i := q], if q \<noteq> 0 then i else posNonZero))"

definition quantize :: "'f float_ops \<Rightarrow> 'f list \<Rightarrow> i16 list \<Rightarrow> i16 list \<times> nat" where
  "quantize fp block64 quantized0 = fold (quantize_step fp block64) [1..<64] (quantized0, 0)"

text \<open>
  The state of the AC loop: the loop counter \<open>i\<close>, \<open>offset\<close> and the writer. Three
  more fields record what the loop does and are read by nothing: the indices at which
  it reads \<open>quantized\<close>, the values at which it reads \<open>codewords\<close>, and the symbols
  at which it reads \<open>huffmanAC\<close> to emit a code.
\<close>

record ac_state =
  ac_i :: nat
  ac_offset :: nat
  ac_writer :: BitWriter
  q_reads :: "nat list"
  cw_reads :: "int list"
  ac_symbols :: "nat list"

text \<open>
  The inner loop \<open>while (quantized[i] == 0)\<close>. It has no bound of its own: a read at
  or past the end of \<open>quantized\<close> is the fault \<open>QuantizedOutOfBounds\<close>. The state
  returned is the one in which the test has failed; the read of that test is recorded.
\<close>

function skip_zeros :: "i16 list \<Rightarrow> BitCode list \<Rightarrow> ac_state \<Rightarrow> fault + ac_state" where
  "skip_zeros quantized huffmanAC s =
     (if length quantized \<le> ac_i s then Inl QuantizedOutOfBounds
      else if quantized ! ac_i s = 0 then
        (let s1 = s\<lparr>q_reads := q_reads s @ [ac_i s], ac_offset := ac_offset s + 0x10\<rparr>
         in if 0xF0 < ac_offset s1
            then skip_zeros quantized huffmanAC
                   (s1\<lparr>ac_writer := put_bits (ac_writer s1) (huffmanAC ! 0xF0),
                       ac_symbols := ac_symbols s1 @ [0xF0],
                       ac_offset := 0,
                       ac_i := ac_i s1 + 1\<rparr>)
            else skip_zeros quantized huffmanAC (s1\<lparr>ac_i := ac_i s1 + 1\<rparr>))
      else Inr (s\<lparr>q_reads := q_reads s @ [ac_i s]\<rparr>))"
  by pat_completeness auto
termination
  by (relation "measure (\<lambda>(quantized, huffmanAC, s). length quantized - ac_i s)") auto

declare skip_zeros.simps [simp del]

lemma skip_zeros_index:
  "skip_zeros quantized huffmanAC s = Inr s' \<Longrightarrow> ac_i s \<le> ac_i s' \<and> ac_i s' < length quantized"
proof (induction quantized huffmanAC s rule: skip_zeros.induct)
  case (1 quantized huffmanAC s)
  show ?case
  proof (cases "length quantized \<le> ac_i s")
    case True
    then show ?thesis using "1.prems" by (subst (asm) skip_zeros.simps) simp
  next
    case inb: False
    show ?thesis
    proof (cases "quantized ! ac_i s = 0")
      case False
      then show ?thesis using "1.prems" inb by (subst (asm) skip_zeros.simps) auto
    next
      case zero: True
      define s1 where "s1 = s\<lparr>q_reads := q_reads s @ [ac_i s], ac_offset := ac_offset s + 0x10\<rparr>"
      show ?thesis
      proof (cases "0xF0 < ac_offset s1")
        case True
        then have "ac_i (s1\<lparr>ac_writer := put_bits (ac_writer s1) (huffmanAC ! 0xF0),
                       ac_symbols := ac_symbols s1 @ [0xF0],
                       ac_offset := 0,
                       ac_i := ac_i s1 + 1\<rparr>) \<le> ac_i s' \<and> ac_i s' < length quantized"
          using "1.prems" inb zero
          by (intro "1.IH"(1) [OF inb zero s1_def True])
             (subst (asm) skip_zeros.simps, simp add: s1_def Let_def)
        then show ?thesis by (simp add: s1_def)
      next
        case False
        then have "ac_i (s1\<lparr>ac_i := ac_i s1 + 1\<rparr>) \<le> ac_i s' \<and> ac_i s' < length quantized"
          using "1.prems" inb zero
          by (intro "1.IH"(2) [OF inb zero s1_def False])
             (subst (asm) skip_zeros.simps, simp add: s1_def Let_def)
        then show ?thesis by (simp add: s1_def)
      qed
    qed
  qed
qed

text \<open>
  The loop \<open>for (auto i = 1; i <= posNonZero; i++)\<close>. After the inner loop it reads
  \<open>quantized[i]\<close> once more, looks the value up in \<open>codewords\<close> and emits the Huffman
  code of \<open>offset + encoded.numBits\<close>, then the value bits.
\<close>

function ac_loop :: "i16 list \<Rightarrow> nat \<Rightarrow> BitCode list \<Rightarrow> ac_state \<Rightarrow> fault + ac_state" where
  "ac_loop quantized posNonZero huffmanAC s =
     (if ac_i s \<le> posNonZero then
        (case skip_zeros quantized huffmanAC s of
           Inl e \<Rightarrow> Inl e
         | Inr s1 \<Rightarrow>
             (let v = sint (quantized ! ac_i s1) in
              case codewords v of
                Inl e \<Rightarrow> Inl e
              | Inr encoded \<Rightarrow>
                  (case huffman_at huffmanAC (ac_offset s1 + unat (numBits encoded)) of
                     Inl e \<Rightarrow> Inl e
                   | Inr hc \<Rightarrow>
                       ac_loop quantized posNonZero huffmanAC
                         (s1\<lparr>ac_writer := put_bits (put_bits (ac_writer s1) hc) encoded,
                             q_reads := q_reads s1 @ [ac_i s1],
                             cw_reads := cw_reads s1 @ [v],
                             ac_symbols := ac_symbols s1 @ [ac_offset s1 + unat (numBits encoded)],
                             ac_offset := 0,
                             ac_i := ac_i s1 + 1\<rparr>))))
      else Inr s)"
  by pat_completeness auto
termination
proof (relation "measure (\<lambda>(quantized, posNonZero, huffmanAC, s). Suc (length quantized) - ac_i s)")
  show "wf (measure (\<lambda>(quantized, posNonZero, huffmanAC, s). Suc (length quantized) - ac_i s))"
    by simp
next
  fix quantized :: "i16 list" and posNonZero :: nat and huffmanAC :: "BitCode list"
    and s s1 :: ac_state and v encoded hc
  assume "skip_zeros quantized huffmanAC s = Inr s1"
  then have "ac_i s \<le> ac_i s1 \<and> ac_i s1 < length quantized"
    by (rule skip_zeros_index)
  then show "((quantized, posNonZero, huffmanAC,
          s1\<lparr>ac_writer := put_bits (put_bits (ac_writer s1) hc) encoded,
             q_reads := q_reads s1 @ [ac_i s1],
             cw_reads := cw_reads s1 @ [v],
             ac_symbols := ac_symbols s1 @ [ac_offset s1 + unat (numBits encoded)],
             ac_offset := 0,
             ac_i := ac_i s1 + 1\<rparr>),
         quantized, posNonZero, huffmanAC, s)
        \<in> measure (\<lambda>(quantized, posNonZero, huffmanAC, s). Suc (length quantized) - ac_i s)"
    by (simp; arith)
qed

declare ac_loop.simps [simp del]

text \<open>
  The AC part of encode\_block: \<open>offset = 0\<close>, the loop from \<open>i = 1\<close>, and the
  end-of-block code \<open>huffmanAC[0x00]\<close> if \<open>posNonZero < 8 * 8 - 1\<close>.
\<close>

definition encode_ac :: "i16 list \<Rightarrow> nat \<Rightarrow> BitCode list \<Rightarrow> BitWriter \<Rightarrow> fault + ac_state" where
  "encode_ac quantized posNonZero huffmanAC writer =
     (case ac_loop quantized posNonZero huffmanAC
             \<lparr>ac_i = 1, ac_offset = 0, ac_writer = writer,
              q_reads = [], cw_reads = [], ac_symbols = []\<rparr> of
        Inl e \<Rightarrow> Inl e
      | Inr s \<Rightarrow>
          Inr (if posNonZero < 63
               then s\<lparr>ac_writer := put_bits (ac_writer s) (huffmanAC ! 0x00),
                      ac_symbols := ac_symbols s @ [0x00]\<rparr>
               else s))"

text \<open>
  The DC part: \<open>diff = DC - lastDC\<close>; the short symbol \<open>huffmanDC[0x00]\<close> if it is 0,
  else the codeword of \<open>diff\<close> behind the Huffman code of its bit count. The second
  component records the values at which \<open>codewords\<close> is read.
\<close>

definition encode_dc :: "BitCode list \<Rightarrow> BitWriter \<Rightarrow> int \<Rightarrow> fault + BitWriter \<times> int list" where
  "encode_dc huffmanDC writer diff =
     (if diff = 0 then Inr (put_bits writer (huffmanDC ! 0x00), [])
      else case codewords diff of
             Inl e \<Rightarrow> Inl e
           | Inr bits \<Rightarrow>
               Inr (put_bits (put_bits writer (huffmanDC ! unat (numBits bits))) bits, [diff]))"

text \<open>
  What encode\_block leaves: the writer, the block (transformed in place), the value it
  returns, and the three records of the AC state.
\<close>

record 'f block_result =
  br_writer :: BitWriter
  br_block :: "'f list"
  br_DC :: i16
  br_q_reads :: "nat list"
  br_cw_reads :: "int list"
  br_ac_symbols :: "nat list"

text \<open>
  \<open>encode_block<luminance>(writer, block64, scaled, lastDC)\<close>. \<open>DC\<close> is an \<open>int\<close>;
  the value returned is narrowed to \<open>int16_t\<close>. The conversion \<open>int(...)\<close> of a float
  outside the range of \<open>int\<close> is undefined in C++; the model takes what \<open>round_int\<close>
  gives.
\<close>

definition encode_block ::
  "bool \<Rightarrow> jpeg_constants \<Rightarrow> 'f float_ops \<Rightarrow> BitWriter \<Rightarrow> 'f list \<Rightarrow> 'f list \<Rightarrow> i16 \<Rightarrow> i16 list
     \<Rightarrow> fault + 'f block_result" where
  "encode_block luminance K fp writer block64 scaled lastDC quantized0 =
     (let (huffmanDC, huffmanAC) = huffman K luminance;
          block1 = map (dct_scale fp scaled block64) [0..<64];
          DC = round_int fp (block1 ! 0);
          (quantized, posNonZero) = quantize fp block1 quantized0;
          diff = DC - sint lastDC
      in case encode_dc huffmanDC writer diff of
           Inl e \<Rightarrow> Inl e
         | Inr (w1, dc_reads) \<Rightarrow>
             (case encode_ac quantized posNonZero huffmanAC w1 of
                Inl e \<Rightarrow> Inl e
              | Inr s \<Rightarrow>
                  Inr \<lparr>br_writer = ac_writer s, br_block = block1, br_DC = word_of_int DC,
                       br_q_reads = q_reads s, br_cw_reads = dc_reads @ cw_reads s,
                       br_ac_symbols = ac_symbols s\<rparr>))"

text \<open>
  The run-length coding of the AC coefficients in the words of the spec (section 4.G and
  the glossary), for comparison with \<open>encode_ac\<close>. The category of a coefficient is the
  number of bits of its magnitude. Zeros are counted; a non-zero coefficient is preceded
  by one ZRL symbol \<open>0xF0\<close> for every full run of 16 zeros and carries the rest of the
  run in its high nibble; zeros after the last non-zero coefficient give one EOB symbol
  \<open>0x00\<close> and no ZRL.
\<close>

definition category :: "int \<Rightarrow> nat" where
  "category v = ceillog2 (nat \<bar>v\<bar> + 1)"

fun spec_rle :: "nat \<Rightarrow> int list \<Rightarrow> nat list" where
  "spec_rle run [] = (if 0 < run then [0x00] else [])"
| "spec_rle run (c # cs) =
     (if c = 0 then spec_rle (run + 1) cs
      else replicate (run div 16) 0xF0 @ [16 * (run mod 16) + category c] @ spec_rle 0 cs)"

text \<open>
  The number of ZRL symbols the spec asks for: one for every full run of 16 zeros in
  front of a non-zero coefficient, none for the zeros after the last one.
\<close>

fun spec_zrl_count :: "nat \<Rightarrow> int list \<Rightarrow> nat" where
  "spec_zrl_count run [] = 0"
| "spec_zrl_count run (c # cs) =
     (if c = 0 then spec_zrl_count (run + 1) cs else run div 16 + spec_zrl_count 0 cs)"

text \<open>
  The same coding as the bit codes the writer receives, in the words of the spec
  (sections 4.G and 3): the codeword of a coefficient \<open>v\<close> has as many bits as its
  category, and its code is \<open>v\<close> for \<open>v \<ge> 0\<close> and \<open>v + (2^bits - 1)\<close> for
  \<open>v < 0\<close>. The DC difference 0 is the Huffman code of category 0 alone; any other
  difference is the Huffman code of its category, then its codeword. Among the AC
  coefficients every ZRL symbol and the EOB symbol is its Huffman code alone, and a
  non-zero coefficient is the Huffman code of its symbol, then its codeword.
\<close>

definition spec_codeword :: "int \<Rightarrow> BitCode" where
  "spec_codeword v =
     \<lparr>code = word_of_int (if 0 \<le> v then v else v + (2 ^ category v - 1)),
      numBits = of_nat (category v)\<rparr>"

definition spec_dc_codes :: "BitCode list \<Rightarrow> int \<Rightarrow> BitCode list" where
  "spec_dc_codes huffmanDC diff =
     (if diff = 0 then [huffmanDC ! 0x00] else [huffmanDC ! category diff, spec_codeword diff])"

fun spec_ac_codes :: "BitCode list \<Rightarrow> nat \<Rightarrow> int list \<Rightarrow> BitCode list" where
  "spec_ac_codes huffmanAC run [] = (if 0 < run then [huffmanAC ! 0x00] else [])"
| "spec_ac_codes huffmanAC run (c # cs) =
     (if c = 0 then spec_ac_codes huffmanAC (run + 1) cs
      else replicate (run div 16) (huffmanAC ! 0xF0) @
           [huffmanAC ! (16 * (run mod 16) + category c), spec_codeword c] @
           spec_ac_codes huffmanAC 0 cs)"

text \<open>
  The precondition of the block encoder that the spec names as an internal invariant
  (section 7), for one block and its scaled table: every rounded coefficient stays inside
  the codeword table, and the rounded DC coefficient lies between -1024 and 1023, so that
  the difference of two of them stays inside the table as well. The DC coefficient of a
  block of 8-bit samples, eight times their mean, lies between -1024 and 1020.
\<close>

definition coefficients_in_range :: "'f float_ops \<Rightarrow> 'f list \<Rightarrow> 'f list \<Rightarrow> bool" where
  "coefficients_in_range fp scaled block =
     (- 1024 \<le> round_int fp (dct_scale fp scaled block 0) \<and>
      round_int fp (dct_scale fp scaled block 0) \<le> 1023 \<and>
      (\<forall>k. 1 \<le> k \<and> k < 64 \<longrightarrow> \<bar>round_int fp (dct_scale fp scaled block k)\<bar> < 2048))"

text \<open>
  An instance of the floating-point parameter on integers, for running the model on
  concrete inputs: samples are integers, the transform divides each sample by its table
  entry, and rounding saturates at 11 bits.
\<close>

definition int_ops :: "int float_ops" where
  "int_ops = \<lparr>
     flt = (\<lambda>x. x),
     sub128 = (\<lambda>x. x - 128),
     rgb2y = (\<lambda>r g b. (299 * r + 587 * g + 114 * b) div 1000),
     rgb2cb = (\<lambda>r g b. (- 169 * r - 331 * g + 500 * b) div 1000),
     rgb2cr = (\<lambda>r g b. (500 * r - 419 * g - 81 * b) div 1000),
     div4 = (\<lambda>x. x div 4),
     scaled_luminance = map uint,
     scaled_chrominance = map uint,
     dct_scale = (\<lambda>scaled block k. block ! k div scaled ! k),
     round_int = (\<lambda>x. clamp x (- 1023) 1023)\<rparr>"

section \<open>The encoder (toojpeg\_17.cpp, writeJpegIntern)\<close>

text \<open>
  The arguments of writeJpegIntern that its loops only read, collected in one record
  so that the loop functions stay readable. \<open>e_pixels\<close> is the memory behind the
  pointer \<open>pixels\<close>, as a function of the offset (a C++ pointer carries no length).
  \<open>e_width\<close> and \<open>e_height\<close> are the \<open>unsigned short\<close> arguments, promoted to
  \<open>int\<close> as every use in the loops promotes them. \<open>e_quantized0\<close> is what the
  uninitialised array \<open>quantized\<close> of encode\_block holds when the call begins.
\<close>

record 'f scan_env =
  e_K :: jpeg_constants
  e_fp :: "'f float_ops"
  e_pixels :: "int \<Rightarrow> u8"
  e_width :: int
  e_height :: int
  e_downsample :: bool
  e_isRGB :: bool
  e_scaled_luminance :: "'f list"
  e_scaled_chrominance :: "'f list"
  e_quantized0 :: "i16 list"

text \<open>
  The variables the MCU loops change: the writer (\<open>s_writer\<close>), the three previous
  DC values \<open>lastYDC\<close>, \<open>lastCbDC\<close>, \<open>lastCrDC\<close> and the three blocks \<open>Y\<close>,
  \<open>Cb\<close>, \<open>Cr\<close>, each field with the prefix \<open>s_\<close>. The source declares the blocks as
  \<open>std::array<std::array<float, 8>, 8>\<close> and hands them to encode\_block as flat
  arrays of 64 floats; \<open>Y[deltaY][deltaX]\<close> is entry \<open>deltaY * 8 + deltaX\<close>.
\<close>

record 'f enc_state =
  s_writer :: BitWriter
  s_lastYDC :: i16
  s_lastCbDC :: i16
  s_lastCrDC :: i16
  s_Y :: "'f list"
  s_Cb :: "'f list"
  s_Cr :: "'f list"

text \<open>
  \<open>const auto maxWidth = width - 1\<close>, \<open>maxHeight = height - 1\<close> and
  \<open>mcuSize = 8 * sampling\<close>.
\<close>

definition maxWidth :: "'f scan_env \<Rightarrow> int" where
  "maxWidth E = e_width E - 1"

definition maxHeight :: "'f scan_env \<Rightarrow> int" where
  "maxHeight E = e_height E - 1"

definition mcuSize :: "'f scan_env \<Rightarrow> int" where
  "mcuSize E = 8 * (if e_downsample E then 2 else 1)"

text \<open>
  The body of the loop over \<open>deltaX\<close> that fills a block. \<open>row\<close>, \<open>column\<close> and
  the MCU coordinates are \<open>int\<close>s that stay below \<open>2 ^ 17\<close>. The pixel position
  \<open>row * int(width) + column\<close> and its multiple \<open>3 * pixelPos\<close> are \<open>int\<close>
  arithmetic that can exceed 31 bits: signed overflow is undefined in C++, and the model
  writes out the two's complement wrap-around of the usual targets, as arithmetic on
  32-bit words read with \<open>sint\<close>. The indices \<open>3 * pixelPos + 1\<close> and
  \<open>3 * pixelPos + 2\<close> are \<open>int\<close> expressions too and wrap the same way; a compiler
  may instead add the constant to the address, which gives another byte only where the
  \<open>int\<close> sum has overflowed.
\<close>

definition pixel_pos :: "int \<Rightarrow> int \<Rightarrow> int \<Rightarrow> 32 word" where
  "pixel_pos row w column = word_of_int row * word_of_int w + word_of_int column"

definition fill_pixel :: "'f scan_env \<Rightarrow> int \<Rightarrow> nat \<Rightarrow> nat \<Rightarrow> int \<times> 'f enc_state \<Rightarrow> int \<times> 'f enc_state" where
  "fill_pixel E row deltaY deltaX = (\<lambda>(column, st).
     let fp = e_fp E;
         pixelPos = pixel_pos row (e_width E) column;
         column1 = (if column < maxWidth E then column + 1 else column)
     in if \<not> e_isRGB E then
          (column1,
           st\<lparr>s_Y := (s_Y st)[deltaY * 8 + deltaX :=
                  sub128 fp (flt fp (uint (e_pixels E (sint pixelPos))))]\<rparr>)
        else
          let r = flt fp (uint (e_pixels E (sint (3 * pixelPos))));
              g = flt fp (uint (e_pixels E (sint (3 * pixelPos + 1))));
              b = flt fp (uint (e_pixels E (sint (3 * pixelPos + 2))));
              st1 = st\<lparr>s_Y := (s_Y st)[deltaY * 8 + deltaX := sub128 fp (rgb2y fp r g b)]\<rparr>
          in (column1,
              if \<not> e_downsample E
              then st1\<lparr>s_Cb := (s_Cb st1)[deltaY * 8 + deltaX := rgb2cb fp r g b],
                       s_Cr := (s_Cr st1)[deltaY * 8 + deltaX := rgb2cr fp r g b]\<rparr>
              else st1))"

text \<open>
  The three values that \<open>fill_pixel\<close> stores for the pixel position of
  \<open>(row, column)\<close>, named for the statements about the loops: the luminance sample
  (of a grayscale or of an RGB image) and the two chrominance samples of YCbCr 4:4:4.
\<close>

definition sample_Y :: "'f scan_env \<Rightarrow> int \<Rightarrow> int \<Rightarrow> 'f" where
  "sample_Y E row column =
     (let fp = e_fp E; pixelPos = pixel_pos row (e_width E) column
      in if \<not> e_isRGB E then sub128 fp (flt fp (uint (e_pixels E (sint pixelPos))))
         else sub128 fp (rgb2y fp (flt fp (uint (e_pixels E (sint (3 * pixelPos)))))
                (flt fp (uint (e_pixels E (sint (3 * pixelPos + 1)))))
                (flt fp (uint (e_pixels E (sint (3 * pixelPos + 2)))))))"

definition sample_Cb :: "'f scan_env \<Rightarrow> int \<Rightarrow> int \<Rightarrow> 'f" where
  "sample_Cb E row column =
     (let fp = e_fp E; pixelPos = pixel_pos row (e_width E) column
      in rgb2cb fp (flt fp (uint (e_pixels E (sint (3 * pixelPos)))))
           (flt fp (uint (e_pixels E (sint (3 * pixelPos + 1)))))
           (flt fp (uint (e_pixels E (sint (3 * pixelPos + 2))))))"

definition sample_Cr :: "'f scan_env \<Rightarrow> int \<Rightarrow> int \<Rightarrow> 'f" where
  "sample_Cr E row column =
     (let fp = e_fp E; pixelPos = pixel_pos row (e_width E) column
      in rgb2cr fp (flt fp (uint (e_pixels E (sint (3 * pixelPos)))))
           (flt fp (uint (e_pixels E (sint (3 * pixelPos + 1)))))
           (flt fp (uint (e_pixels E (sint (3 * pixelPos + 2))))))"

text \<open>The two loops over \<open>deltaY\<close> and \<open>deltaX\<close> that fill one 8x8 block.\<close>

definition fill_block :: "'f scan_env \<Rightarrow> int \<Rightarrow> int \<Rightarrow> int \<Rightarrow> int \<Rightarrow> 'f enc_state \<Rightarrow> 'f enc_state" where
  "fill_block E mcuX mcuY blockX blockY st =
     fold (\<lambda>deltaY st.
             let column = min (mcuX + blockX) (maxWidth E);
                 row = min (mcuY + blockY + int deltaY) (maxHeight E)
             in snd (fold (fill_pixel E row deltaY) [0..<8] (column, st)))
       [0..<8] st"

text \<open>The three calls of encode\_block, each with its block, table and DC register.\<close>

definition encode_Y :: "'f scan_env \<Rightarrow> 'f enc_state \<Rightarrow> fault + 'f enc_state" where
  "encode_Y E st =
     (case encode_block True (e_K E) (e_fp E) (s_writer st) (s_Y st) (e_scaled_luminance E)
             (s_lastYDC st) (e_quantized0 E) of
        Inl e \<Rightarrow> Inl e
      | Inr r \<Rightarrow> Inr (st\<lparr>s_writer := br_writer r, s_Y := br_block r, s_lastYDC := br_DC r\<rparr>))"

definition encode_Cb :: "'f scan_env \<Rightarrow> 'f enc_state \<Rightarrow> fault + 'f enc_state" where
  "encode_Cb E st =
     (case encode_block False (e_K E) (e_fp E) (s_writer st) (s_Cb st) (e_scaled_chrominance E)
             (s_lastCbDC st) (e_quantized0 E) of
        Inl e \<Rightarrow> Inl e
      | Inr r \<Rightarrow> Inr (st\<lparr>s_writer := br_writer r, s_Cb := br_block r, s_lastCbDC := br_DC r\<rparr>))"

definition encode_Cr :: "'f scan_env \<Rightarrow> 'f enc_state \<Rightarrow> fault + 'f enc_state" where
  "encode_Cr E st =
     (case encode_block False (e_K E) (e_fp E) (s_writer st) (s_Cr st) (e_scaled_chrominance E)
             (s_lastCrDC st) (e_quantized0 E) of
        Inl e \<Rightarrow> Inl e
      | Inr r \<Rightarrow> Inr (st\<lparr>s_writer := br_writer r, s_Cr := br_block r, s_lastCrDC := br_DC r\<rparr>))"

text \<open>
  The chrominance pass of YCbCr 4:2:0: the body of the loop over \<open>deltaX\<close>, on the
  variables \<open>pixelPos\<close>, \<open>column\<close> and \<open>columnStep\<close>. The sums \<open>r\<close>, \<open>g\<close>,
  \<open>b\<close> of four bytes are \<open>int\<close>s.
\<close>

definition downsample_pixel ::
  "'f scan_env \<Rightarrow> int \<Rightarrow> 32 word \<Rightarrow> nat \<Rightarrow> nat \<Rightarrow> 32 word \<times> int \<times> 32 word \<times> 'f enc_state
     \<Rightarrow> 32 word \<times> int \<times> 32 word \<times> 'f enc_state" where
  "downsample_pixel E row rowStep deltaY deltaX = (\<lambda>(pixelPos, column, columnStep, st).
     let fp = e_fp E;
         px = (\<lambda>p :: 32 word. uint (e_pixels E (sint p)));
         right = pixelPos + columnStep;
         down = pixelPos + rowStep;
         downRight = pixelPos + columnStep + rowStep;
         r = flt fp (px pixelPos + px right + px down + px downRight);
         g = flt fp (px (pixelPos + 1) + px (right + 1) + px (down + 1) + px (downRight + 1));
         b = flt fp (px (pixelPos + 2) + px (right + 2) + px (down + 2) + px (downRight + 2));
         st1 = st\<lparr>s_Cb := (s_Cb st)[deltaY * 8 + deltaX := div4 fp (rgb2cb fp r g b)]\<rparr>;
         st2 = st1\<lparr>s_Cr := (s_Cr st1)[deltaY * 8 + deltaX := div4 fp (rgb2cr fp r g b)]\<rparr>;
         pixelPos1 = pixelPos + 2 * 3;
         column1 = column + 2
     in if maxWidth E \<le> column1
        then ((word_of_int (row + 1) * word_of_int (e_width E) - 1) * 3, column1, 0, st2)
        else (pixelPos1, column1, columnStep, st2))"

text \<open>The loop \<open>for (short deltaY = 7; deltaY >= 0; deltaY--)\<close> around it.\<close>

definition downsample_chroma :: "'f scan_env \<Rightarrow> int \<Rightarrow> int \<Rightarrow> 'f enc_state \<Rightarrow> 'f enc_state" where
  "downsample_chroma E mcuX mcuY st =
     fold (\<lambda>deltaY st.
             let row = min (mcuY + 2 * int deltaY) (maxHeight E);
                 column = mcuX;
                 pixelPos = pixel_pos row (e_width E) column * 3;
                 rowStep = (if row < maxHeight E then 3 * word_of_int (e_width E) else 0);
                 columnStep = (if column < maxWidth E then 3 else 0)
             in snd (snd (snd (fold (downsample_pixel E row rowStep deltaY) [0..<8]
                                  (pixelPos, column, columnStep, st)))))
       (rev [0..<8]) st"

text \<open>
  Notions for the statements about the block loops. \<open>store_row f deltaY n\<close> is what
  \<open>n\<close> rounds of a loop over \<open>deltaX\<close> leave in a block when round \<open>deltaX\<close>
  stores \<open>f deltaX\<close> at \<open>[deltaY][deltaX]\<close>; \<open>store_block\<close> repeats it for a list of
  rows. \<open>next_column\<close> is the update \<open>if (column < maxWidth) column++\<close>;
  \<open>ds_next\<close> is the update of \<open>pixelPos\<close>, \<open>column\<close> and \<open>columnStep\<close> in
  the 4:2:0 pass, and \<open>ds_Cb\<close>, \<open>ds_Cr\<close> are the two values that pass stores.
\<close>

definition store_row :: "(nat \<Rightarrow> 'a) \<Rightarrow> nat \<Rightarrow> nat \<Rightarrow> 'a list \<Rightarrow> 'a list" where
  "store_row f deltaY n ys = fold (\<lambda>deltaX ys. ys[deltaY * 8 + deltaX := f deltaX]) [0..<n] ys"

definition store_block :: "(nat \<Rightarrow> nat \<Rightarrow> 'a) \<Rightarrow> nat list \<Rightarrow> 'a list \<Rightarrow> 'a list" where
  "store_block f rows ys = fold (\<lambda>deltaY ys. store_row (f deltaY) deltaY 8 ys) rows ys"

definition next_column :: "'f scan_env \<Rightarrow> int \<Rightarrow> int" where
  "next_column E column = (if column < maxWidth E then column + 1 else column)"

definition ds_next :: "'f scan_env \<Rightarrow> int \<Rightarrow> 32 word \<times> int \<times> 32 word \<Rightarrow> 32 word \<times> int \<times> 32 word" where
  "ds_next E row = (\<lambda>(pixelPos, column, columnStep).
     if maxWidth E \<le> column + 2
     then ((word_of_int (row + 1) * word_of_int (e_width E) - 1) * 3, column + 2, 0)
     else (pixelPos + 2 * 3, column + 2, columnStep))"

definition ds_rgb :: "'f scan_env \<Rightarrow> 32 word \<Rightarrow> 32 word \<times> int \<times> 32 word \<Rightarrow> 'f \<times> 'f \<times> 'f" where
  "ds_rgb E rowStep = (\<lambda>(pixelPos, column, columnStep).
     let fp = e_fp E;
         px = (\<lambda>p :: 32 word. uint (e_pixels E (sint p)));
         right = pixelPos + columnStep;
         down = pixelPos + rowStep;
         downRight = pixelPos + columnStep + rowStep
     in (flt fp (px pixelPos + px right + px down + px downRight),
         flt fp (px (pixelPos + 1) + px (right + 1) + px (down + 1) + px (downRight + 1)),
         flt fp (px (pixelPos + 2) + px (right + 2) + px (down + 2) + px (downRight + 2))))"

definition ds_Cb :: "'f scan_env \<Rightarrow> 32 word \<Rightarrow> 32 word \<times> int \<times> 32 word \<Rightarrow> 'f" where
  "ds_Cb E rowStep a = (case ds_rgb E rowStep a of (r, g, b) \<Rightarrow> div4 (e_fp E) (rgb2cb (e_fp E) r g b))"

definition ds_Cr :: "'f scan_env \<Rightarrow> 32 word \<Rightarrow> 32 word \<times> int \<times> 32 word \<Rightarrow> 'f" where
  "ds_Cr E rowStep a = (case ds_rgb E rowStep a of (r, g, b) \<Rightarrow> div4 (e_fp E) (rgb2cr (e_fp E) r g b))"

text \<open>
  The values the loops store in a block. A luminance sample is \<open>float(p) - 128\<close> for a
  byte \<open>p\<close> or \<open>rgb2y(r, g, b) - 128\<close> for three bytes. A chrominance sample is
  \<open>rgb2cb\<close> or \<open>rgb2cr\<close> of three bytes or, in the 4:2:0 pass, a quarter of
  \<open>rgb2cb\<close> or \<open>rgb2cr\<close> of three sums of four bytes. \<open>samples_in_range\<close> is the
  internal invariant of the spec for a run: with the two scaled tables of the run, every
  block of 64 luminance samples and every block of 64 chrominance samples has its
  coefficients in range. It is a property of the floating-point operations and the tables.
\<close>

definition luminance_sample :: "'f float_ops \<Rightarrow> 'f \<Rightarrow> bool" where
  "luminance_sample fp x =
     ((\<exists>p. 0 \<le> p \<and> p \<le> 255 \<and> x = sub128 fp (flt fp p)) \<or>
      (\<exists>r g b. 0 \<le> r \<and> r \<le> 255 \<and> 0 \<le> g \<and> g \<le> 255 \<and> 0 \<le> b \<and> b \<le> 255 \<and>
         x = sub128 fp (rgb2y fp (flt fp r) (flt fp g) (flt fp b))))"

definition chrominance_sample :: "'f float_ops \<Rightarrow> 'f \<Rightarrow> bool" where
  "chrominance_sample fp x =
     ((\<exists>r g b. 0 \<le> r \<and> r \<le> 255 \<and> 0 \<le> g \<and> g \<le> 255 \<and> 0 \<le> b \<and> b \<le> 255 \<and>
         (x = rgb2cb fp (flt fp r) (flt fp g) (flt fp b) \<or>
          x = rgb2cr fp (flt fp r) (flt fp g) (flt fp b))) \<or>
      (\<exists>r g b. 0 \<le> r \<and> r \<le> 1020 \<and> 0 \<le> g \<and> g \<le> 1020 \<and> 0 \<le> b \<and> b \<le> 1020 \<and>
         (x = div4 fp (rgb2cb fp (flt fp r) (flt fp g) (flt fp b)) \<or>
          x = div4 fp (rgb2cr fp (flt fp r) (flt fp g) (flt fp b)))))"

definition samples_in_range :: "'f float_ops \<Rightarrow> 'f list \<Rightarrow> 'f list \<Rightarrow> bool" where
  "samples_in_range fp scaled_lum scaled_chrom =
     ((\<forall>block. length block = 64 \<and> list_all (luminance_sample fp) block \<longrightarrow>
         coefficients_in_range fp scaled_lum block) \<and>
      (\<forall>block. length block = 64 \<and> list_all (chrominance_sample fp) block \<longrightarrow>
         coefficients_in_range fp scaled_chrom block))"

text \<open>
  What the loops keep in that case: the three DC registers lie between -1024 and 1023,
  and the three blocks have their 64 entries.
\<close>

definition dc_in_range :: "'f enc_state \<Rightarrow> bool" where
  "dc_in_range st =
     (- 1024 \<le> sint (s_lastYDC st) \<and> sint (s_lastYDC st) \<le> 1023 \<and>
      - 1024 \<le> sint (s_lastCbDC st) \<and> sint (s_lastCbDC st) \<le> 1023 \<and>
      - 1024 \<le> sint (s_lastCrDC st) \<and> sint (s_lastCrDC st) \<le> 1023 \<and>
      length (s_Y st) = 64 \<and> length (s_Cb st) = 64 \<and> length (s_Cr st) = 64)"

text \<open>
  A loop whose body can fault: the first fault ends it.
\<close>

fun fold_fault :: "('a \<Rightarrow> 's \<Rightarrow> fault + 's) \<Rightarrow> 'a list \<Rightarrow> 's \<Rightarrow> fault + 's" where
  "fold_fault f [] s = Inr s"
| "fold_fault f (x # xs) s = (case f x s of Inl e \<Rightarrow> Inl e | Inr s' \<Rightarrow> fold_fault f xs s')"

text \<open>
  The values of \<open>blockY\<close> and \<open>blockX\<close> in the loops
  \<open>for (blockY = 0; blockY < mcuSize; blockY += 8)\<close> and
  \<open>for (blockX = 0; blockX < mcuSize; blockX += 8)\<close>, the loop over \<open>blockY\<close> outside.
\<close>

definition block_offsets :: "'f scan_env \<Rightarrow> (int \<times> int) list" where
  "block_offsets E =
     (let offs = map (\<lambda>k. 8 * int k) [0..<nat (mcuSize E) div 8] in List.product offs offs)"

text \<open>The body of the loop over \<open>mcuX\<close>: one MCU.\<close>

definition encode_mcu :: "'f scan_env \<Rightarrow> int \<Rightarrow> int \<Rightarrow> 'f enc_state \<Rightarrow> fault + 'f enc_state" where
  "encode_mcu E mcuX mcuY st =
     (case fold_fault (\<lambda>(blockY, blockX) st. encode_Y E (fill_block E mcuX mcuY blockX blockY st))
             (block_offsets E) st of
        Inl e \<Rightarrow> Inl e
      | Inr st1 \<Rightarrow>
          if \<not> e_isRGB E then Inr st1
          else
            (let st2 = (if e_downsample E then downsample_chroma E mcuX mcuY st1 else st1)
             in case encode_Cb E st2 of
                  Inl e \<Rightarrow> Inl e
                | Inr st3 \<Rightarrow> encode_Cr E st3))"

text \<open>
  The loops \<open>for (mcuX = 0; mcuX < width; mcuX += mcuSize)\<close> and
  \<open>for (mcuY = 0; mcuY < height; mcuY += mcuSize)\<close>.
\<close>

function mcu_x_loop :: "'f scan_env \<Rightarrow> int \<Rightarrow> int \<Rightarrow> 'f enc_state \<Rightarrow> fault + 'f enc_state" where
  "mcu_x_loop E mcuY mcuX st =
     (if mcuX < e_width E then
        (case encode_mcu E mcuX mcuY st of
           Inl e \<Rightarrow> Inl e
         | Inr st' \<Rightarrow> mcu_x_loop E mcuY (mcuX + mcuSize E) st')
      else Inr st)"
  by pat_completeness auto
termination
  by (relation "measure (\<lambda>(E, mcuY, mcuX, st). nat (e_width E - mcuX))")
     (auto simp: mcuSize_def)

declare mcu_x_loop.simps [simp del]

function mcu_y_loop :: "'f scan_env \<Rightarrow> int \<Rightarrow> 'f enc_state \<Rightarrow> fault + 'f enc_state" where
  "mcu_y_loop E mcuY st =
     (if mcuY < e_height E then
        (case mcu_x_loop E mcuY 0 st of
           Inl e \<Rightarrow> Inl e
         | Inr st' \<Rightarrow> mcu_y_loop E (mcuY + mcuSize E) st')
      else Inr st)"
  by pat_completeness auto
termination
  by (relation "measure (\<lambda>(E, mcuY, st). nat (e_height E - mcuY))")
     (auto simp: mcuSize_def)

declare mcu_y_loop.simps [simp del]

text \<open>The JFIF header \<open>HeaderJfif\<close> and the constant \<open>Spectral\<close> of writeJpegIntern.\<close>

definition HeaderJfif :: "u8 list" where
  "HeaderJfif =
     [0xFF, 0xD8, 0xFF, 0xE0, 0, 16, 0x4A, 0x46, 0x49, 0x46, 0, 1, 1, 0, 0, 1, 0, 1, 0, 0]"

definition Spectral :: "u8 list" where
  "Spectral = [0, 63, 0]"

text \<open>
  The optional comment segment: \<open>if (!comment.empty())\<close> the marker \<open>0xFE\<close> with
  the length \<open>2 + comment.size()\<close> narrowed to \<open>uint16_t\<close>, then the bytes of the
  comment as they are.
\<close>

definition write_comment :: "BitWriter \<Rightarrow> u8 list \<Rightarrow> BitWriter" where
  "write_comment w comment =
     (if comment \<noteq> [] then put_bytes (addMarker w 0xFE (of_nat (2 + length comment))) comment
      else w)"

text \<open>The quantization tables, the frame header, the Huffman tables and the scan header.\<close>

definition write_tables ::
  "jpeg_constants \<Rightarrow> BitWriter \<Rightarrow> u16 \<Rightarrow> u16 \<Rightarrow> bool \<Rightarrow> bool \<Rightarrow> u8 list \<Rightarrow> u8 list \<Rightarrow> BitWriter" where
  "write_tables K w0 width height downsample isRGB quantLuminance quantChrominance =
     (let numComponents = (if isRGB then 3 else 1 :: nat);
          w1 = addMarker w0 0xDB (of_nat (2 + (if isRGB then 2 else 1) * (1 + 8 * 8)));
          w2 = put_bytes (put_byte w1 0x00) quantLuminance;
          w3 = (if isRGB then put_bytes (put_byte w2 0x01) quantChrominance else w2);
          w4 = addMarker w3 0xC0 (of_nat (2 + 6 + 3 * numComponents));
          w5 = put_byte (put_byte (put_byte (put_byte (put_byte w4 0x08)
                 (ucast (drop_bit 8 height))) (ucast (height AND 0xFF)))
                 (ucast (drop_bit 8 width))) (ucast (width AND 0xFF));
          w6 = put_byte w5 (of_nat numComponents);
          w7 = fold (\<lambda>ident w.
                  put_byte (put_byte (put_byte w (of_nat ident))
                    (if ident = 1 \<and> downsample then 0x22 else 0x11))
                    (if ident = 1 then 0 else 1))
                [1..<numComponents + 1] w6;
          len = 1 + 16 + 12 + 1 + 16 + 162;
          w8 = addMarker w7 0xC4 (of_nat (if isRGB then 2 + len + len else 2 + len));
          w9 = put_bytes (put_bytes (put_byte w8 0x00) (DcLuminanceCodesPerBitsize K))
                 (DcLuminanceValues K);
          w10 = put_bytes (put_bytes (put_byte w9 0x10) (AcLuminanceCodesPerBitsize K))
                  (AcLuminanceValues K);
          w11 = (if isRGB
                 then put_bytes (put_bytes (put_byte
                        (put_bytes (put_bytes (put_byte w10 0x01) (DcChrominanceCodesPerBitsize K))
                           (DcChrominanceValues K))
                        0x11) (AcChrominanceCodesPerBitsize K)) (AcChrominanceValues K)
                 else w10);
          w12 = addMarker w11 0xDA (of_nat (2 + 1 + 2 * numComponents + 3));
          w13 = put_byte w12 (of_nat numComponents);
          w14 = fold (\<lambda>ident w.
                   put_byte (put_byte w (of_nat ident)) (if ident = 1 then 0x00 else 0x11))
                 [1..<numComponents + 1] w13
      in put_bytes w14 Spectral)"

text \<open>Everything writeJpegIntern writes before the first MCU.\<close>

definition write_headers ::
  "jpeg_constants \<Rightarrow> BitWriter \<Rightarrow> u16 \<Rightarrow> u16 \<Rightarrow> bool \<Rightarrow> bool \<Rightarrow> u8 list \<Rightarrow> u8 list \<Rightarrow> u8 list
     \<Rightarrow> BitWriter" where
  "write_headers K bitWriter width height downsample isRGB quantLuminance quantChrominance comment =
     write_tables K (write_comment (put_bytes bitWriter HeaderJfif) comment)
       width height downsample isRGB quantLuminance quantChrominance"

text \<open>
  What the uninitialised local arrays hold when writeJpegIntern begins: the blocks
  \<open>Y\<close>, \<open>Cb\<close>, \<open>Cr\<close> (``Explicitly not initialize those variables'') and the
  array \<open>quantized\<close> of encode\_block.
\<close>

record 'f uninitialised =
  u_Y :: "'f list"
  u_Cb :: "'f list"
  u_Cr :: "'f list"
  u_quantized :: "i16 list"

definition uninitialised_sized :: "'f uninitialised \<Rightarrow> bool" where
  "uninitialised_sized u =
     (length (u_Y u) = 64 \<and> length (u_Cb u) = 64 \<and> length (u_Cr u) = 64 \<and>
      length (u_quantized u) = 64)"

text \<open>An instance for running the model on concrete inputs: all zero.\<close>

definition zero_uninitialised :: "int uninitialised" where
  "zero_uninitialised =
     \<lparr>u_Y = replicate 64 0, u_Cb = replicate 64 0, u_Cr = replicate 64 0,
      u_quantized = replicate 64 0\<rparr>"

text \<open>
  \<open>writeJpegIntern\<close>: the headers, the MCU loops, \<open>flush\<close> and the EOI marker.
  It returns \<open>true\<close> whenever it returns.
\<close>

definition scan_env_of ::
  "jpeg_constants \<Rightarrow> 'f float_ops \<Rightarrow> 'f uninitialised \<Rightarrow> (int \<Rightarrow> u8) \<Rightarrow> u16 \<Rightarrow> u16 \<Rightarrow> bool \<Rightarrow> bool
     \<Rightarrow> 'f list \<Rightarrow> 'f list \<Rightarrow> 'f scan_env" where
  "scan_env_of K fp u pixels width height downsample isRGB scaled_lum scaled_chrom =
     \<lparr>e_K = K, e_fp = fp, e_pixels = pixels, e_width = uint width, e_height = uint height,
      e_downsample = downsample, e_isRGB = isRGB, e_scaled_luminance = scaled_lum,
      e_scaled_chrominance = scaled_chrom, e_quantized0 = u_quantized u\<rparr>"

definition writeJpegIntern ::
  "jpeg_constants \<Rightarrow> 'f float_ops \<Rightarrow> 'f uninitialised \<Rightarrow> BitWriter \<Rightarrow> (int \<Rightarrow> u8) \<Rightarrow> u16 \<Rightarrow> u16
     \<Rightarrow> bool \<Rightarrow> bool \<Rightarrow> u8 list \<Rightarrow> u8 list \<Rightarrow> 'f list \<Rightarrow> 'f list \<Rightarrow> u8 list
     \<Rightarrow> fault + bool \<times> BitWriter" where
  "writeJpegIntern K fp u bitWriter pixels width height downsample isRGB
       quantLuminance quantChrominance scaled_lum scaled_chrom comment =
     (let w = write_headers K bitWriter width height downsample isRGB
                quantLuminance quantChrominance comment;
          E = scan_env_of K fp u pixels width height downsample isRGB scaled_lum scaled_chrom;
          st0 = \<lparr>s_writer = w, s_lastYDC = 0, s_lastCbDC = 0, s_lastCrDC = 0,
                 s_Y = u_Y u, s_Cb = u_Cb u, s_Cr = u_Cr u\<rparr>
      in case mcu_y_loop E 0 st0 of
           Inl e \<Rightarrow> Inl e
         | Inr st \<Rightarrow> Inr (True, put_byte (put_byte (flush (s_writer st)) 0xFF) 0xD9))"

section \<open>The entry point (toojpeg\_17.cpp, writeJpegQuality)\<close>

text \<open>
  How a call ends: with the exception \<open>std::runtime_error\<close> and its message, or with
  a returned \<open>bool\<close>. The result of the model pairs it with the bytes the sink has
  received. \<open>pixels\<close> is \<open>None\<close> for \<open>nullptr\<close>.
\<close>

datatype call_result = Threw string | Returned bool

definition writeJpegQuality ::
  "jpeg_constants \<Rightarrow> 'f float_ops \<Rightarrow> 'f uninitialised \<Rightarrow> (int \<Rightarrow> u8) option \<Rightarrow> u16 \<Rightarrow> u16
     \<Rightarrow> bool \<Rightarrow> bool \<Rightarrow> u8 \<Rightarrow> u8 list \<Rightarrow> fault + call_result \<times> u8 list" where
  "writeJpegQuality K fp u pixels width height downsample0 isRGB quality_arg comment =
     (let downsample = (if \<not> isRGB then False else downsample0) in
      if \<not> (1 < quality_arg \<and> quality_arg \<le> 100)
      then Inr (Threw ''Quality must be in [1..100]'', [])
      else
        (case pixels of
           None \<Rightarrow> Inr (Returned False, [])
         | Some px \<Rightarrow>
             if width = 0 \<or> height = 0 then Inr (Returned False, [])
             else
               (let quantLuminance = quant_table_for (DefaultQuantLuminance_A K) quality_arg;
                    quantChrominance = quant_table_for (DefaultQuantChrominance_A K) quality_arg;
                    scaledLuminance = scaled_luminance fp quantLuminance;
                    scaledChrominance = scaled_chrominance fp quantChrominance
                in case writeJpegIntern K fp u new_BitWriter px width height downsample isRGB
                          quantLuminance quantChrominance scaledLuminance scaledChrominance
                          comment of
                     Inl e \<Rightarrow> Inl e
                   | Inr (ok, w) \<Rightarrow> Inr (Returned ok, sink w))))"


text \<open>
  A memory in which every byte from the start of the buffer on is \<open>0xFF\<close> and every
  byte in front of the buffer is 0, and the loop environment of a grayscale image of
  65535 x 32770 pixels in that memory.
\<close>

definition bright_image :: "int \<Rightarrow> u8" where
  "bright_image p = (if 0 \<le> p then 0xFF else 0)"

definition huge_gray :: "int scan_env" where
  "huge_gray = scan_env_of annexK int_ops zero_uninitialised bright_image 65535 32770 False False
                 (replicate 64 1) (replicate 64 1)"

text \<open>
  A memory that holds \<open>0xFF\<close> everywhere, the loop environment of the same image of
  65535 x 32770 pixels in that memory, and the state in which the MCU loops begin when the
  writer is new and the uninitialised blocks hold zeros.
\<close>

definition white_image :: "int \<Rightarrow> u8" where
  "white_image p = 0xFF"

definition huge_white :: "int scan_env" where
  "huge_white = scan_env_of annexK int_ops zero_uninitialised white_image 65535 32770 False False
                 (replicate 64 1) (replicate 64 1)"

definition fresh_state :: "int enc_state" where
  "fresh_state = \<lparr>s_writer = new_BitWriter, s_lastYDC = 0, s_lastCbDC = 0, s_lastCrDC = 0,
           s_Y = replicate 64 0, s_Cb = replicate 64 0, s_Cr = replicate 64 0\<rparr>"

text \<open>
  Relations between two states of the MCU loops, for comparing two runs that began with
  different contents of the uninitialised arrays. \<open>same_output\<close>: the writer and the
  three DC registers agree (the blocks may differ, each has its 64 entries);
  \<open>same_chroma\<close>: the blocks \<open>Cb\<close> and \<open>Cr\<close> agree as well;
  \<open>blocks_related\<close>: what holds after the luminance blocks of an MCU, where the
  4:4:4 loop has filled \<open>Cb\<close> and \<open>Cr\<close> and the other two modes have not.
\<close>

definition same_output :: "'f enc_state \<Rightarrow> 'f enc_state \<Rightarrow> bool" where
  "same_output st st' =
     (s_writer st = s_writer st' \<and> s_lastYDC st = s_lastYDC st' \<and>
      s_lastCbDC st = s_lastCbDC st' \<and> s_lastCrDC st = s_lastCrDC st' \<and>
      length (s_Y st) = 64 \<and> length (s_Cb st) = 64 \<and> length (s_Cr st) = 64 \<and>
      length (s_Y st') = 64 \<and> length (s_Cb st') = 64 \<and> length (s_Cr st') = 64)"

definition same_chroma :: "'f enc_state \<Rightarrow> 'f enc_state \<Rightarrow> bool" where
  "same_chroma st st' = (same_output st st' \<and> s_Cb st = s_Cb st' \<and> s_Cr st = s_Cr st')"

definition blocks_related :: "'f scan_env \<Rightarrow> 'f enc_state \<Rightarrow> 'f enc_state \<Rightarrow> bool" where
  "blocks_related E st st' =
     (if e_isRGB E \<and> \<not> e_downsample E then same_chroma st st' else same_output st st')"

section \<open>Byte stuffing\<close>

lemma stuffed_Cons_other: "a \<noteq> 0xFF \<Longrightarrow> stuffed (a # ys) = stuffed ys"
  by (cases ys) simp_all

lemma stuffed_append: "stuffed xs \<Longrightarrow> stuffed ys \<Longrightarrow> stuffed (xs @ ys)"
  by (induction xs rule: stuffed.induct) (simp_all add: stuffed_Cons_other split: if_splits)

lemma write_full_bytes_stuffed:
  "\<exists>bs. sink (write_full_bytes w) = sink w @ bs \<and> stuffed bs"
proof (induction w rule: write_full_bytes.induct)
  case (1 w)
  show ?case
  proof (cases "8 \<le> buffer_numBits w")
    case False
    then have "sink (write_full_bytes w) = sink w @ []"
      by (subst write_full_bytes.simps) simp
    then show ?thesis using stuffed.simps(1) by blast
  next
    case True
    define n where "n = buffer_numBits w - 8"
    define oneByte :: u8 where "oneByte = ucast (drop_bit (unat n) (buffer_data w))"
    define w1 where "w1 = put_byte (w\<lparr>buffer_numBits := n\<rparr>) oneByte"
    define w2 where "w2 = (if oneByte = 0xFF then put_byte w1 0 else w1)"
    have step: "write_full_bytes w = write_full_bytes w2"
      using True by (subst write_full_bytes.simps) (simp add: Let_def n_def oneByte_def w1_def w2_def)
    from "1.IH" [OF True n_def oneByte_def w1_def w2_def]
    obtain bs where bs: "sink (write_full_bytes w2) = sink w2 @ bs" "stuffed bs"
      by blast
    define hd_bytes where "hd_bytes = (if oneByte = 0xFF then [oneByte, 0] else [oneByte])"
    have out2: "sink w2 = sink w @ hd_bytes"
      by (simp add: w2_def w1_def put_byte_def hd_bytes_def)
    have "stuffed hd_bytes" by (simp add: hd_bytes_def)
    then have "stuffed (hd_bytes @ bs)" using bs(2) by (rule stuffed_append)
    moreover have "sink (write_full_bytes w) = sink w @ (hd_bytes @ bs)"
      using step bs(1) out2 by simp
    ultimately show ?thesis by blast
  qed
qed

lemma put_bits_stuffed: "\<exists>bs. sink (put_bits w d) = sink w @ bs \<and> stuffed bs"
proof -
  let ?w = "w\<lparr>buffer_numBits := buffer_numBits w + numBits d,
          buffer_data := push_bit (unat (numBits d)) (buffer_data w) OR ucast (code d)\<rparr>"
  obtain bs where "sink (write_full_bytes ?w) = sink ?w @ bs" "stuffed bs"
    using write_full_bytes_stuffed by blast
  then show ?thesis by (auto simp: put_bits_def)
qed

lemma appends_stuffed_refl: "appends_stuffed w w"
  by (simp add: appends_stuffed_def)

lemma appends_stuffed_trans:
  "appends_stuffed w1 w2 \<Longrightarrow> appends_stuffed w2 w3 \<Longrightarrow> appends_stuffed w1 w3"
  unfolding appends_stuffed_def using stuffed_append by fastforce

lemma appends_stuffed_put_bits: "appends_stuffed w (put_bits w d)"
  unfolding appends_stuffed_def by (rule put_bits_stuffed)

lemma appends_stuffed_put_bits_trans:
  "appends_stuffed w w' \<Longrightarrow> appends_stuffed w (put_bits w' d)"
  using appends_stuffed_put_bits appends_stuffed_trans by blast

section \<open>The codeword table\<close>

lemma codewords_step_word:
  fixes nb :: u8 and mask :: u32
  assumes v: "v < 2048" and nb0: "0 < unat nb" and lo: "2 ^ (unat nb - 1) \<le> v"
    and hi: "v \<le> 2 ^ unat nb" and m: "unat mask = 2 ^ unat nb - 1"
  defines "nb1 \<equiv> (if mask < of_nat v then nb + 1 else nb)"
    and "mask1 \<equiv> (if mask < of_nat v then push_bit 1 mask OR 1 else mask)"
  shows "0 < unat nb1 \<and> 2 ^ (unat nb1 - 1) \<le> v \<and> v < 2 ^ unat nb1 \<and>
         unat mask1 = 2 ^ unat nb1 - 1"
proof -
  have nb11: "unat nb \<le> 11"
  proof (rule ccontr)
    assume "\<not> unat nb \<le> 11"
    then have "11 \<le> unat nb - 1" by simp
    then have "(2::nat) ^ 11 \<le> 2 ^ (unat nb - 1)" by (rule power_increasing) simp
    with lo v show False by simp
  qed
  have vu: "unat (of_nat v :: u32) = v"
    using v by (simp add: unat_of_nat)
  have test: "mask < of_nat v \<longleftrightarrow> v = 2 ^ unat nb"
    using hi m vu by (auto simp: word_less_nat_alt)
  show ?thesis
  proof (cases "mask < of_nat v")
    case False
    then have "v < 2 ^ unat nb" using test hi by simp
    then show ?thesis using False nb0 lo m by (simp add: nb1_def mask1_def)
  next
    case True
    then have veq: "v = 2 ^ unat nb" using test by simp
    have n1: "unat (nb + 1) = unat nb + 1"
      using nb11 by (simp add: unat_word_ariths)
    have pmask: "push_bit 1 mask OR 1 = 2 * mask + 1"
      by (simp add: or_one_eq push_bit_eq_mult)
    have small: "(2::nat) ^ unat nb \<le> 2 ^ 11"
      using nb11 by (intro power_increasing) simp_all
    have "unat (2 * mask + 1) = 2 * unat mask + 1"
      using m small by (simp add: unat_word_ariths)
    moreover have "2 * (2 ^ unat nb - 1) + 1 = (2::nat) ^ (unat nb + 1) - 1"
    proof -
      have "2 * (p - 1) + 1 = 2 * p - 1" if "0 < p" for p :: nat
        using that by arith
      from this [of "2 ^ unat nb"] show ?thesis by simp
    qed
    ultimately have m1: "unat mask1 = 2 ^ (unat nb + 1) - 1"
      using True m pmask by (simp only: mask1_def if_True)
    show ?thesis
      using True n1 m1 veq by (simp add: nb1_def)
  qed
qed

lemma codewords_loop_inv:
  fixes nb :: u8 and mask :: u32
  assumes "1 \<le> v" "v \<le> CodeWordLimit" "length arr = 2 * CodeWordLimit"
    and "0 < unat nb" "2 ^ (unat nb - 1) \<le> v" "v \<le> 2 ^ unat nb" "unat mask = 2 ^ unat nb - 1"
    and "\<And>k. 1 \<le> k \<Longrightarrow> k < v \<Longrightarrow>
          \<exists>b. 0 < b \<and> 2 ^ (b - 1) \<le> k \<and> k < 2 ^ b \<and>
            arr ! (CodeWordLimit + k) = \<lparr>code = of_nat k, numBits = of_nat b\<rparr> \<and>
            arr ! (CodeWordLimit - k) = \<lparr>code = of_nat (2 ^ b - 1 - k), numBits = of_nat b\<rparr>"
    and "1 \<le> k" "k < CodeWordLimit"
  shows "\<exists>b. 0 < b \<and> 2 ^ (b - 1) \<le> k \<and> k < 2 ^ b \<and>
            codewords_loop v (arr, nb, mask) ! (CodeWordLimit + k) = \<lparr>code = of_nat k, numBits = of_nat b\<rparr> \<and>
            codewords_loop v (arr, nb, mask) ! (CodeWordLimit - k) = \<lparr>code = of_nat (2 ^ b - 1 - k), numBits = of_nat b\<rparr>"
  using assms
proof (induction v "(arr, nb, mask)" arbitrary: arr nb mask rule: codewords_loop.induct)
  case (1 v arr nb mask)
  show ?case
  proof (cases "v < CodeWordLimit")
    case False
    then have "k < v" using "1.prems" by simp
    moreover have "codewords_loop v (arr, nb, mask) = arr"
      using False by (subst codewords_loop.simps) simp
    ultimately show ?thesis using "1.prems"(8) [of k] "1.prems"(9) by simp
  next
    case True
    define nb1 where "nb1 = (if mask < of_nat v then nb + 1 else nb)"
    define mask1 where "mask1 = (if mask < of_nat v then push_bit 1 mask OR 1 else mask)"
    define a1 where "a1 = arr[CodeWordLimit - v := \<lparr>code = ucast (mask1 - of_nat v), numBits = nb1\<rparr>]"
    define a2 where "a2 = a1[CodeWordLimit + v := \<lparr>code = of_nat v, numBits = nb1\<rparr>]"
    have unfold: "codewords_loop v (arr, nb, mask) = codewords_loop (v + 1) (a2, nb1, mask1)"
      using True
      by (subst codewords_loop.simps) (simp add: Let_def nb1_def mask1_def a1_def a2_def)
    have v2048: "v < 2048" using True by (simp add: CodeWordLimit_def)
    from codewords_step_word [OF v2048 "1.prems"(4,5,6,7)]
    have st: "0 < unat nb1" "2 ^ (unat nb1 - 1) \<le> v" "v < 2 ^ unat nb1"
      "unat mask1 = 2 ^ unat nb1 - 1"
      by (simp_all add: nb1_def mask1_def)
    have len2: "length a2 = 2 * CodeWordLimit"
      using "1.prems"(3) by (simp add: a1_def a2_def)
    have code_neg: "(ucast (mask1 - of_nat v) :: u16) = of_nat (2 ^ unat nb1 - 1 - v)"
    proof -
      have vu: "unat (of_nat v :: u32) = v" using v2048 by (simp add: unat_of_nat)
      have le: "(of_nat v :: u32) \<le> mask1"
        using st(3,4) vu by (simp add: word_le_nat_alt)
      have "unat (mask1 - of_nat v) = 2 ^ unat nb1 - 1 - v"
        using unat_sub [OF le] vu st(4) by simp
      moreover have "(ucast (mask1 - of_nat v) :: u16) = of_nat (unat (mask1 - of_nat v))"
        by (simp add: of_nat_unat)
      ultimately show ?thesis by simp
    qed
    have upd_pos: "a2 ! (CodeWordLimit + v) = \<lparr>code = of_nat v, numBits = nb1\<rparr>"
      using len2 True by (simp add: a2_def a1_def)
    have upd_neg: "a2 ! (CodeWordLimit - v) = \<lparr>code = of_nat (2 ^ unat nb1 - 1 - v), numBits = nb1\<rparr>"
      using "1.prems"(1,3) True code_neg by (simp add: a2_def a1_def)
    have old: "a2 ! (CodeWordLimit + j) = arr ! (CodeWordLimit + j) \<and>
               a2 ! (CodeWordLimit - j) = arr ! (CodeWordLimit - j)" if "1 \<le> j" "j < v" for j
      using that True by (simp add: a2_def a1_def)
    have pair_eq: "(nb1, mask1) =
        (if mask < of_nat v then (nb + 1, push_bit 1 mask OR 1) else (nb, mask))"
      by (simp add: nb1_def mask1_def)
    have IH: "\<exists>b. 0 < b \<and> 2 ^ (b - 1) \<le> k \<and> k < 2 ^ b \<and>
            codewords_loop (v + 1) (a2, nb1, mask1) ! (CodeWordLimit + k) = \<lparr>code = of_nat k, numBits = of_nat b\<rparr> \<and>
            codewords_loop (v + 1) (a2, nb1, mask1) ! (CodeWordLimit - k) = \<lparr>code = of_nat (2 ^ b - 1 - k), numBits = of_nat b\<rparr>"
    proof (rule "1.hyps" [OF True refl pair_eq a1_def a2_def])
      show "1 \<le> v + 1" by simp
      show "v + 1 \<le> CodeWordLimit" using True by simp
      show "length a2 = 2 * CodeWordLimit" by (rule len2)
      show "0 < unat nb1" by (rule st(1))
      show "2 ^ (unat nb1 - 1) \<le> v + 1" using st(2) by simp
      show "v + 1 \<le> 2 ^ unat nb1" using st(3) by simp
      show "unat mask1 = 2 ^ unat nb1 - 1" by (rule st(4))
      show "1 \<le> k" "k < CodeWordLimit" using "1.prems" by simp_all
    next
      fix j assume j: "1 \<le> j" "j < v + 1"
      show "\<exists>b. 0 < b \<and> 2 ^ (b - 1) \<le> j \<and> j < 2 ^ b \<and>
            a2 ! (CodeWordLimit + j) = \<lparr>code = of_nat j, numBits = of_nat b\<rparr> \<and>
            a2 ! (CodeWordLimit - j) = \<lparr>code = of_nat (2 ^ b - 1 - j), numBits = of_nat b\<rparr>"
      proof (cases "j = v")
        case True
        then show ?thesis
          using st upd_pos upd_neg by (intro exI [of _ "unat nb1"]) simp
      next
        case False
        then have "j < v" using j by simp
        then show ?thesis using "1.prems"(8) [OF j(1)] old [OF j(1)] by simp
      qed
    qed
    show ?thesis using IH unfold by simp
  qed
qed

lemma codewords_table:
  assumes "1 \<le> k" "k < CodeWordLimit"
  shows "\<exists>b. 0 < b \<and> 2 ^ (b - 1) \<le> k \<and> k < 2 ^ b \<and>
            codewords_for_quantized_dct ! (CodeWordLimit + k) = \<lparr>code = of_nat k, numBits = of_nat b\<rparr> \<and>
            codewords_for_quantized_dct ! (CodeWordLimit - k) = \<lparr>code = of_nat (2 ^ b - 1 - k), numBits = of_nat b\<rparr>"
  unfolding codewords_for_quantized_dct_def
  by (rule codewords_loop_inv) (use assms in \<open>simp_all add: CodeWordLimit_def\<close>)

lemma bits_unique:
  assumes "0 < b" "2 ^ (b - 1) \<le> k" "k < 2 ^ b"
  shows "b = ceillog2 (k + 1)"
proof (rule ceillog2_eqI [symmetric])
  show "k + 1 \<le> 2 ^ b" using assms(3) by simp
  have "(2::nat) ^ b = 2 * 2 ^ (b - 1)" using assms(1) by (cases b) simp_all
  then show "2 ^ b < 2 * (k + 1)" using assms(2) by simp
qed

lemma codewords_value:
  assumes "1 \<le> k" "k < CodeWordLimit"
  shows "codewords (int k) = Inr \<lparr>code = of_nat k, numBits = of_nat (ceillog2 (k + 1))\<rparr>"
    and "codewords (- int k) =
           Inr \<lparr>code = of_nat (2 ^ ceillog2 (k + 1) - 1 - k), numBits = of_nat (ceillog2 (k + 1))\<rparr>"
proof -
  obtain b where b: "0 < b" "2 ^ (b - 1) \<le> k" "k < 2 ^ b"
    "codewords_for_quantized_dct ! (CodeWordLimit + k) = \<lparr>code = of_nat k, numBits = of_nat b\<rparr>"
    "codewords_for_quantized_dct ! (CodeWordLimit - k) = \<lparr>code = of_nat (2 ^ b - 1 - k), numBits = of_nat b\<rparr>"
    using codewords_table [OF assms] by blast
  have beq: "b = ceillog2 (k + 1)" using b(1,2,3) by (rule bits_unique)
  have "nat (int k + int CodeWordLimit) = CodeWordLimit + k" by simp
  then show "codewords (int k) = Inr \<lparr>code = of_nat k, numBits = of_nat (ceillog2 (k + 1))\<rparr>"
    using assms b(4) beq by (simp add: codewords_def)
  have "nat (- int k + int CodeWordLimit) = CodeWordLimit - k" by simp
  then show "codewords (- int k) =
           Inr \<lparr>code = of_nat (2 ^ ceillog2 (k + 1) - 1 - k), numBits = of_nat (ceillog2 (k + 1))\<rparr>"
    using assms b(5) beq by (simp add: codewords_def)
qed

section \<open>Quantization tables\<close>

lemma quant_fold_length: "length (fold (\<lambda>i q. q[i := f i]) js xs) = length xs"
  by (induction js arbitrary: xs) auto

lemma quant_fold_nth:
  "n \<le> length xs \<Longrightarrow> i < length xs \<Longrightarrow>
   fold (\<lambda>i q. q[i := f i]) [0..<n] xs ! i = (if i < n then f i else xs ! i)"
  by (induction n) (auto simp: nth_list_update less_Suc_eq quant_fold_length)

lemma quant_table_nth:
  "i < 64 \<Longrightarrow> quant_table defaults quality ! i = quant_entry defaults quality i"
  by (simp add: quant_table_def quant_fold_nth)

lemma quant_table_length: "length (quant_table defaults quality) = 64"
  by (simp add: quant_table_def quant_fold_length)

lemma zigzag_order_nth:
  "i < 64 \<Longrightarrow> zigzag_order defaults ! i = uint (defaults ! (ZigZagInv ! i))"
  by (simp add: zigzag_order_def del: upt_Suc)

text \<open>
  Every entry of a built table is the clamped value, whatever the quality: the product
  is at most \<open>255 * 255\<close>.
\<close>

lemma quant_entry_uint:
  "uint (quant_entry defaults quality i) =
     clamp ((uint (defaults ! (ZigZagInv ! i)) * uint quality + 50) div 100) 1 255"
proof -
  have "0 \<le> clamp v 1 255 \<and> clamp v 1 255 < 256" for v
    by (simp add: clamp_def)
  then show ?thesis
    by (simp add: quant_entry_def Let_def uint_word_of_int)
qed

text \<open>
  From quality 20 on the scale factor fits the \<open>unsigned char\<close> parameter, and the
  table is the one the spec describes.
\<close>

lemma quality_factor_fits:
  assumes "20 \<le> uint q" "uint q \<le> 100"
  shows "uint (word_of_int (quality_factor q) :: u8) = spec_scale_factor (uint q)"
proof -
  have "0 \<le> quality_factor q \<and> quality_factor q < 256"
  proof (cases "uint q < 50")
    case True
    have "5000 div uint q \<le> 5000 div 20"
      using assms(1) by (intro zdiv_mono2) simp_all
    moreover have "0 \<le> 5000 div uint q"
      using assms(1) by (intro pos_imp_zdiv_nonneg_iff [THEN iffD2]) simp_all
    ultimately show ?thesis using True by (simp add: quality_factor_def)
  next
    case False
    then show ?thesis using assms(2) by (simp add: quality_factor_def)
  qed
  then have "uint (word_of_int (quality_factor q) :: u8) = quality_factor q"
    by (simp add: uint_word_of_int)
  then show ?thesis by (simp add: quality_factor_def spec_scale_factor_def)
qed

lemma quant_table_for_from_20:
  assumes "20 \<le> uint q" "uint q \<le> 100" "i < 64"
  shows "uint (quant_table_for defaults q ! i) = spec_quant_entry (zigzag_order defaults) (uint q) i"
  using assms
  by (simp add: quant_table_for_def quant_table_nth quant_entry_uint quality_factor_fits
      spec_quant_entry_def zigzag_order_nth)

text \<open>
  Below quality 20 the factor \<open>5000 / q\<close> exceeds 255 and is reduced modulo 256 by
  the conversion to \<open>unsigned char\<close>.
\<close>

lemma quant_table_for_below_20:
  assumes "i < 64"
  shows "uint (quant_table_for defaults q ! i) =
     clamp ((zigzag_order defaults ! i * (quality_factor q mod 256) + 50) div 100) 1 255"
  using assms
  by (simp add: quant_table_for_def quant_table_nth quant_entry_uint uint_word_of_int
      zigzag_order_nth)

text \<open>
  C5. Claimed: for every quality \<open>q\<close> in \<open>[1,100]\<close> the built table is
  \<open>Q[i] = clamp((D[i] s + 50)/100, 1, 255)\<close> with \<open>s = 5000/q\<close> below 50. At quality
  10 the code does not compute this: the factor 500 reaches \<open>quant_table\<close> as
  \<open>500 mod 256 = 244\<close>, so the first luminance entry (default 16) is 39, where the
  formula of the spec gives 80.
\<close>

theorem quant_table_quality_10_diverges:
  "uint (quant_table_for (DefaultQuantLuminance_A annexK) 10 ! 0) = 39 \<and>
   spec_quant_entry (zigzag_order (DefaultQuantLuminance_A annexK)) 10 0 = 80 \<and>
   uint (word_of_int (quality_factor 10) :: u8) = 244 \<and> spec_scale_factor 10 = 500"
proof -
  have z: "zigzag_order (DefaultQuantLuminance_A annexK) ! 0 = 16"
    by (simp add: zigzag_order_nth) (simp add: ZigZagInv_def annexK_def)
  have f: "quality_factor 10 = 500"
    by (simp add: quality_factor_def)
  have "uint (quant_table_for (DefaultQuantLuminance_A annexK) 10 ! 0) = 39"
    using quant_table_for_below_20 [of 0 "DefaultQuantLuminance_A annexK" 10]
    by (simp add: z f clamp_def)
  moreover have "spec_quant_entry (zigzag_order (DefaultQuantLuminance_A annexK)) 10 0 = 80"
    by (simp add: spec_quant_entry_def spec_scale_factor_def z clamp_def)
  moreover have "uint (word_of_int (quality_factor 10) :: u8) = 244"
    by (simp add: f)
  moreover have "spec_scale_factor 10 = 500"
    by (simp add: spec_scale_factor_def)
  ultimately show ?thesis by simp
qed

section \<open>The block encoder\<close>

lemma quantize_fold:
  assumes "n \<le> 64" "length q0 = 64"
    and "fold (quantize_step fp b) [1..<n] (q0, 0) = (q, pos)"
  shows "length q = 64 \<and> pos < 64 \<and> (pos = 0 \<or> (1 \<le> pos \<and> pos < n \<and> q ! pos \<noteq> 0)) \<and>
         (\<forall>j. pos < j \<and> j < n \<longrightarrow> q ! j = 0) \<and>
         (\<forall>j. 1 \<le> j \<and> j < n \<longrightarrow> q ! j = word_of_int (round_int fp (b ! (ZigZagInv ! j)))) \<and>
         (\<forall>j. j = 0 \<or> n \<le> j \<longrightarrow> q ! j = q0 ! j)"
  using assms
proof (induction n arbitrary: q pos)
  case 0
  then show ?case by simp
next
  case (Suc n)
  show ?case
  proof (cases "n = 0")
    case True
    then show ?thesis using Suc.prems by simp
  next
    case False
    then have n1: "1 \<le> n" by simp
    obtain q1 pos1 where f1: "fold (quantize_step fp b) [1..<n] (q0, 0) = (q1, pos1)"
      by (cases "fold (quantize_step fp b) [1..<n] (q0, 0)")
    have IH: "length q1 = 64 \<and> pos1 < 64 \<and> (pos1 = 0 \<or> (1 \<le> pos1 \<and> pos1 < n \<and> q1 ! pos1 \<noteq> 0)) \<and>
         (\<forall>j. pos1 < j \<and> j < n \<longrightarrow> q1 ! j = 0) \<and>
         (\<forall>j. 1 \<le> j \<and> j < n \<longrightarrow> q1 ! j = word_of_int (round_int fp (b ! (ZigZagInv ! j)))) \<and>
         (\<forall>j. j = 0 \<or> n \<le> j \<longrightarrow> q1 ! j = q0 ! j)"
      using Suc.IH [OF _ Suc.prems(2) f1] Suc.prems(1) by simp
    define v :: i16 where "v = word_of_int (round_int fp (b ! (ZigZagInv ! n)))"
    have eq: "quantize_step fp b n (q1, pos1) = (q, pos)"
      using Suc.prems(3) n1 f1 by simp
    have "quantize_step fp b n (q1, pos1) = (q1[n := v], if v \<noteq> 0 then n else pos1)"
      by (simp add: quantize_step_def Let_def v_def)
    with eq have step: "(q, pos) = (q1[n := v], if v \<noteq> 0 then n else pos1)"
      by simp
    have nlt: "n < 64" using Suc.prems(1) by simp
    show ?thesis
    proof (cases "v = 0")
      case True
      then have "q = q1[n := 0]" "pos = pos1" using step by simp_all
      then show ?thesis using IH nlt True v_def n1
        by (auto simp: nth_list_update less_Suc_eq)
    next
      case False
      then have "q = q1[n := v]" "pos = n" using step by simp_all
      then show ?thesis using IH nlt False v_def n1
        by (auto simp: nth_list_update less_Suc_eq)
    qed
  qed
qed

lemma quantize_props:
  assumes "length q0 = 64" "quantize fp b q0 = (q, pos)"
  shows "length q = 64" "pos < 64" "pos = 0 \<or> (1 \<le> pos \<and> q ! pos \<noteq> 0)"
    "\<And>j. pos < j \<Longrightarrow> j < 64 \<Longrightarrow> q ! j = 0"
    "\<And>j. 1 \<le> j \<Longrightarrow> j < 64 \<Longrightarrow> q ! j = word_of_int (round_int fp (b ! (ZigZagInv ! j)))"
proof -
  have f: "fold (quantize_step fp b) [1..<64] (q0, 0) = (q, pos)"
    using assms(2) by (simp add: quantize_def)
  note all = quantize_fold [OF _ assms(1) f, simplified]
  show "length q = 64" "pos < 64" "pos = 0 \<or> (1 \<le> pos \<and> q ! pos \<noteq> 0)"
    using all by auto
  show "\<And>j. pos < j \<Longrightarrow> j < 64 \<Longrightarrow> q ! j = 0"
    using all by blast
  show "\<And>j. 1 \<le> j \<Longrightarrow> j < 64 \<Longrightarrow> q ! j = word_of_int (round_int fp (b ! (ZigZagInv ! j)))"
    using all by simp
qed

lemma skip_zeros_stuffed:
  "skip_zeros quantized huffmanAC s = Inr s' \<Longrightarrow> appends_stuffed (ac_writer s) (ac_writer s')"
proof (induction quantized huffmanAC s rule: skip_zeros.induct)
  case (1 quantized huffmanAC s)
  show ?case
  proof (cases "length quantized \<le> ac_i s")
    case True
    then show ?thesis using "1.prems" by (subst (asm) skip_zeros.simps) simp
  next
    case inb: False
    show ?thesis
    proof (cases "quantized ! ac_i s = 0")
      case False
      then show ?thesis using "1.prems" inb
        by (subst (asm) skip_zeros.simps) (auto simp: appends_stuffed_refl)
    next
      case zero: True
      define s1 where "s1 = s\<lparr>q_reads := q_reads s @ [ac_i s], ac_offset := ac_offset s + 0x10\<rparr>"
      show ?thesis
      proof (cases "0xF0 < ac_offset s1")
        case True
        then have "appends_stuffed (ac_writer (s1\<lparr>ac_writer := put_bits (ac_writer s1) (huffmanAC ! 0xF0),
                       ac_symbols := ac_symbols s1 @ [0xF0],
                       ac_offset := 0,
                       ac_i := ac_i s1 + 1\<rparr>)) (ac_writer s')"
          using "1.prems" inb zero
          by (intro "1.IH"(1) [OF inb zero s1_def True])
             (subst (asm) skip_zeros.simps, simp add: s1_def Let_def)
        then have "appends_stuffed (put_bits (ac_writer s) (huffmanAC ! 0xF0)) (ac_writer s')"
          by (simp add: s1_def)
        then show ?thesis
          using appends_stuffed_put_bits appends_stuffed_trans by blast
      next
        case False
        then have "appends_stuffed (ac_writer (s1\<lparr>ac_i := ac_i s1 + 1\<rparr>)) (ac_writer s')"
          using "1.prems" inb zero
          by (intro "1.IH"(2) [OF inb zero s1_def False])
             (subst (asm) skip_zeros.simps, simp add: s1_def Let_def)
        then show ?thesis by (simp add: s1_def)
      qed
    qed
  qed
qed

lemma ac_loop_stuffed:
  "ac_loop quantized posNonZero huffmanAC s = Inr s' \<Longrightarrow> appends_stuffed (ac_writer s) (ac_writer s')"
proof (induction quantized posNonZero huffmanAC s rule: ac_loop.induct)
  case (1 quantized posNonZero huffmanAC s)
  show ?case
  proof (cases "ac_i s \<le> posNonZero")
    case False
    then show ?thesis using "1.prems"
      by (subst (asm) ac_loop.simps) (simp add: appends_stuffed_refl)
  next
    case True
    from "1.prems" True obtain s1 encoded hc where
      sk: "skip_zeros quantized huffmanAC s = Inr s1"
      and cw: "codewords (sint (quantized ! ac_i s1)) = Inr encoded"
      and hu: "huffman_at huffmanAC (ac_offset s1 + unat (numBits encoded)) = Inr hc"
      and rec: "ac_loop quantized posNonZero huffmanAC
                         (s1\<lparr>ac_writer := put_bits (put_bits (ac_writer s1) hc) encoded,
                             q_reads := q_reads s1 @ [ac_i s1],
                             cw_reads := cw_reads s1 @ [sint (quantized ! ac_i s1)],
                             ac_symbols := ac_symbols s1 @ [ac_offset s1 + unat (numBits encoded)],
                             ac_offset := 0,
                             ac_i := ac_i s1 + 1\<rparr>) = Inr s'"
      by (subst (asm) ac_loop.simps) (auto simp: Let_def split: sum.splits)
    have "appends_stuffed (put_bits (put_bits (ac_writer s1) hc) encoded) (ac_writer s')"
      using "1.IH" [OF True sk refl cw hu rec] by simp
    moreover have "appends_stuffed (ac_writer s) (ac_writer s1)"
      using sk by (rule skip_zeros_stuffed)
    ultimately show ?thesis
      by (meson appends_stuffed_put_bits appends_stuffed_trans)
  qed
qed

lemma skip_zeros_spec:
  assumes "ac_i s \<le> pos" "pos < length quantized" "quantized ! pos \<noteq> 0"
    and "ac_offset s = 16 * m" "m < 16"
  shows "\<exists>s'. skip_zeros quantized huffmanAC s = Inr s' \<and>
           ac_i s \<le> ac_i s' \<and> ac_i s' \<le> pos \<and> quantized ! ac_i s' \<noteq> 0 \<and>
           (\<forall>j. ac_i s \<le> j \<and> j < ac_i s' \<longrightarrow> quantized ! j = 0) \<and>
           q_reads s' = q_reads s @ [ac_i s..<Suc (ac_i s')] \<and>
           cw_reads s' = cw_reads s \<and>
           ac_symbols s' = ac_symbols s @ replicate ((m + (ac_i s' - ac_i s)) div 16) 0xF0 \<and>
           ac_offset s' = 16 * ((m + (ac_i s' - ac_i s)) mod 16)"
  using assms
proof (induction quantized huffmanAC s arbitrary: m rule: skip_zeros.induct)
  case (1 quantized huffmanAC s)
  have inb: "\<not> length quantized \<le> ac_i s" using "1.prems" by simp
  show ?case
  proof (cases "quantized ! ac_i s = 0")
    case False
    then have "skip_zeros quantized huffmanAC s = Inr (s\<lparr>q_reads := q_reads s @ [ac_i s]\<rparr>)"
      using inb by (subst skip_zeros.simps) simp
    then show ?thesis using False "1.prems" by auto
  next
    case zero: True
    then have lt: "ac_i s < pos" using "1.prems"(1,3) by (cases "ac_i s = pos") auto
    define s1 where "s1 = s\<lparr>q_reads := q_reads s @ [ac_i s], ac_offset := ac_offset s + 0x10\<rparr>"
    show ?thesis
    proof (cases "0xF0 < ac_offset s1")
      case True
      define s2 where "s2 = s1\<lparr>ac_writer := put_bits (ac_writer s1) (huffmanAC ! 0xF0),
                       ac_symbols := ac_symbols s1 @ [0xF0],
                       ac_offset := 0,
                       ac_i := ac_i s1 + 1\<rparr>"
      have m15: "m = 15" using True "1.prems"(4,5) by (simp add: s1_def)
      have unfold: "skip_zeros quantized huffmanAC s = skip_zeros quantized huffmanAC s2"
        using inb zero True by (subst skip_zeros.simps) (simp add: s1_def s2_def Let_def)
      have "\<exists>s'. skip_zeros quantized huffmanAC s2 = Inr s' \<and>
           ac_i s2 \<le> ac_i s' \<and> ac_i s' \<le> pos \<and> quantized ! ac_i s' \<noteq> 0 \<and>
           (\<forall>j. ac_i s2 \<le> j \<and> j < ac_i s' \<longrightarrow> quantized ! j = 0) \<and>
           q_reads s' = q_reads s2 @ [ac_i s2..<Suc (ac_i s')] \<and>
           cw_reads s' = cw_reads s2 \<and>
           ac_symbols s' = ac_symbols s2 @ replicate ((0 + (ac_i s' - ac_i s2)) div 16) 0xF0 \<and>
           ac_offset s' = 16 * ((0 + (ac_i s' - ac_i s2)) mod 16)"
        unfolding s2_def
        by (rule "1.IH"(1) [OF inb zero s1_def True])
           (use lt "1.prems" in \<open>simp_all add: s1_def\<close>)
      then obtain s' where s': "skip_zeros quantized huffmanAC s2 = Inr s'"
           "ac_i s2 \<le> ac_i s'" "ac_i s' \<le> pos" "quantized ! ac_i s' \<noteq> 0"
           "\<forall>j. ac_i s2 \<le> j \<and> j < ac_i s' \<longrightarrow> quantized ! j = 0"
           "q_reads s' = q_reads s2 @ [ac_i s2..<Suc (ac_i s')]"
           "cw_reads s' = cw_reads s2"
           "ac_symbols s' = ac_symbols s2 @ replicate ((ac_i s' - ac_i s2) div 16) 0xF0"
           "ac_offset s' = 16 * ((ac_i s' - ac_i s2) mod 16)"
        by auto
      have i2: "ac_i s2 = Suc (ac_i s)" by (simp add: s2_def s1_def)
      obtain n where n: "ac_i s' - ac_i s = Suc n" "ac_i s' - ac_i s2 = n"
        using s'(2) i2 by (metis Suc_diff_le Suc_le_lessD diff_Suc_Suc less_or_eq_imp_le)
      have ar: "(15 + Suc n) div 16 = Suc (n div 16)" "(15 + Suc n) mod 16 = n mod 16"
        by simp_all
      have zeros: "\<forall>j. ac_i s \<le> j \<and> j < ac_i s' \<longrightarrow> quantized ! j = 0"
        using s'(5) zero i2 by (metis le_antisym not_less_eq_eq)
      have reads: "q_reads s' = q_reads s @ [ac_i s..<Suc (ac_i s')]"
        using s'(6) s'(2) i2 by (simp add: s2_def s1_def upt_conv_Cons)
      have syms: "ac_symbols s' = ac_symbols s @ replicate ((m + (ac_i s' - ac_i s)) div 16) 0xF0"
        using s'(8) n ar m15 by (simp add: s2_def s1_def replicate_append_same)
      have off: "ac_offset s' = 16 * ((m + (ac_i s' - ac_i s)) mod 16)"
        using s'(9) n ar m15 by simp
      show ?thesis
        using unfold s'(1,3,4,7) s'(2) i2 zeros reads syms off
        by (simp add: s2_def s1_def)
    next
      case False
      define s2 where "s2 = s1\<lparr>ac_i := ac_i s1 + 1\<rparr>"
      have mlt: "Suc m < 16" using False "1.prems"(4,5) by (simp add: s1_def)
      have unfold: "skip_zeros quantized huffmanAC s = skip_zeros quantized huffmanAC s2"
        using inb zero False by (subst skip_zeros.simps) (simp add: s1_def s2_def Let_def)
      have "\<exists>s'. skip_zeros quantized huffmanAC s2 = Inr s' \<and>
           ac_i s2 \<le> ac_i s' \<and> ac_i s' \<le> pos \<and> quantized ! ac_i s' \<noteq> 0 \<and>
           (\<forall>j. ac_i s2 \<le> j \<and> j < ac_i s' \<longrightarrow> quantized ! j = 0) \<and>
           q_reads s' = q_reads s2 @ [ac_i s2..<Suc (ac_i s')] \<and>
           cw_reads s' = cw_reads s2 \<and>
           ac_symbols s' = ac_symbols s2 @ replicate ((Suc m + (ac_i s' - ac_i s2)) div 16) 0xF0 \<and>
           ac_offset s' = 16 * ((Suc m + (ac_i s' - ac_i s2)) mod 16)"
        unfolding s2_def
        by (rule "1.IH"(2) [OF inb zero s1_def False])
           (use lt mlt "1.prems" in \<open>simp_all add: s1_def\<close>)
      then obtain s' where s': "skip_zeros quantized huffmanAC s2 = Inr s'"
           "ac_i s2 \<le> ac_i s'" "ac_i s' \<le> pos" "quantized ! ac_i s' \<noteq> 0"
           "\<forall>j. ac_i s2 \<le> j \<and> j < ac_i s' \<longrightarrow> quantized ! j = 0"
           "q_reads s' = q_reads s2 @ [ac_i s2..<Suc (ac_i s')]"
           "cw_reads s' = cw_reads s2"
           "ac_symbols s' = ac_symbols s2 @ replicate ((Suc m + (ac_i s' - ac_i s2)) div 16) 0xF0"
           "ac_offset s' = 16 * ((Suc m + (ac_i s' - ac_i s2)) mod 16)"
        by auto
      have i2: "ac_i s2 = Suc (ac_i s)" by (simp add: s2_def s1_def)
      obtain n where n: "ac_i s' - ac_i s = Suc n" "ac_i s' - ac_i s2 = n"
        using s'(2) i2 by (metis Suc_diff_le Suc_le_lessD diff_Suc_Suc less_or_eq_imp_le)
      have zeros: "\<forall>j. ac_i s \<le> j \<and> j < ac_i s' \<longrightarrow> quantized ! j = 0"
        using s'(5) zero i2 by (metis le_antisym not_less_eq_eq)
      have reads: "q_reads s' = q_reads s @ [ac_i s..<Suc (ac_i s')]"
        using s'(6) s'(2) i2 by (simp add: s2_def s1_def upt_conv_Cons)
      have syms: "ac_symbols s' = ac_symbols s @ replicate ((m + (ac_i s' - ac_i s)) div 16) 0xF0"
        using s'(8) n by (simp add: s2_def s1_def)
      have off: "ac_offset s' = 16 * ((m + (ac_i s' - ac_i s)) mod 16)"
        using s'(9) n by simp
      show ?thesis
        using unfold s'(1,3,4,7) s'(2) i2 zeros reads syms off
        by (simp add: s2_def s1_def)
    qed
  qed
qed

lemma codewords_fault: "codewords v = Inl e \<Longrightarrow> e = CodewordsOutOfBounds"
  by (simp add: codewords_def split: if_splits)

lemma huffman_at_fault: "huffman_at t i = Inl e \<Longrightarrow> e = HuffmanOutOfBounds"
  by (simp add: huffman_at_def split: if_splits)

lemma ac_loop_reads:
  assumes "pos < length quantized" "ac_i s \<le> pos \<longrightarrow> quantized ! pos \<noteq> 0" "ac_offset s = 0"
  shows "case ac_loop quantized pos huffmanAC s of
           Inl e \<Rightarrow> e \<noteq> QuantizedOutOfBounds
         | Inr s' \<Rightarrow> set (q_reads s') \<subseteq> set (q_reads s) \<union> {ac_i s..pos} \<and>
                     set (cw_reads s') \<subseteq> set (cw_reads s) \<union> {v. v \<noteq> 0}"
  using assms
proof (induction quantized pos huffmanAC s rule: ac_loop.induct)
  case (1 quantized pos huffmanAC s)
  show ?case
  proof (cases "ac_i s \<le> pos")
    case False
    then have "ac_loop quantized pos huffmanAC s = Inr s"
      by (subst ac_loop.simps) simp
    then show ?thesis by simp
  next
    case True
    then have nz: "quantized ! pos \<noteq> 0" using "1.prems"(2) by simp
    from skip_zeros_spec [OF True "1.prems"(1) nz, of 0 huffmanAC] "1.prems"(3)
    obtain s1 where s1: "skip_zeros quantized huffmanAC s = Inr s1"
      "ac_i s \<le> ac_i s1" "ac_i s1 \<le> pos" "quantized ! ac_i s1 \<noteq> 0"
      "q_reads s1 = q_reads s @ [ac_i s..<Suc (ac_i s1)]" "cw_reads s1 = cw_reads s"
      by auto
    define v where "v = sint (quantized ! ac_i s1)"
    have v0: "v \<noteq> 0" using s1(4) by (simp add: v_def signed_eq_0_iff)
    show ?thesis
    proof (cases "codewords v")
      case (Inl e)
      then have "ac_loop quantized pos huffmanAC s = Inl e"
        using True s1(1) by (subst ac_loop.simps) (simp add: v_def Let_def)
      then show ?thesis using codewords_fault [OF Inl] by simp
    next
      case cw: (Inr encoded)
      show ?thesis
      proof (cases "huffman_at huffmanAC (ac_offset s1 + unat (numBits encoded))")
        case (Inl e)
        then have "ac_loop quantized pos huffmanAC s = Inl e"
          using True s1(1) cw by (subst ac_loop.simps) (simp add: v_def Let_def)
        then show ?thesis using huffman_at_fault [OF Inl] by simp
      next
        case hu: (Inr hc)
        define s2 where "s2 = s1\<lparr>ac_writer := put_bits (put_bits (ac_writer s1) hc) encoded,
                             q_reads := q_reads s1 @ [ac_i s1],
                             cw_reads := cw_reads s1 @ [v],
                             ac_symbols := ac_symbols s1 @ [ac_offset s1 + unat (numBits encoded)],
                             ac_offset := 0,
                             ac_i := ac_i s1 + 1\<rparr>"
        have unfold: "ac_loop quantized pos huffmanAC s = ac_loop quantized pos huffmanAC s2"
          using True s1(1) cw hu by (subst ac_loop.simps) (simp add: v_def Let_def s2_def)
        have IH: "case ac_loop quantized pos huffmanAC s2 of
           Inl e \<Rightarrow> e \<noteq> QuantizedOutOfBounds
         | Inr s' \<Rightarrow> set (q_reads s') \<subseteq> set (q_reads s2) \<union> {ac_i s2..pos} \<and>
                     set (cw_reads s') \<subseteq> set (cw_reads s2) \<union> {v. v \<noteq> 0}"
          unfolding s2_def
          by (rule "1.IH" [OF True s1(1) v_def cw hu]) (use "1.prems" nz in simp_all)
        have q2: "set (q_reads s2) \<union> {ac_i s2..pos} \<subseteq> set (q_reads s) \<union> {ac_i s..pos}"
          using s1(2,3,5) by (auto simp: s2_def)
        have c2: "set (cw_reads s2) \<union> {v. v \<noteq> 0} \<subseteq> set (cw_reads s) \<union> {v. v \<noteq> 0}"
          using s1(6) v0 by (auto simp: s2_def)
        show ?thesis
          using IH q2 c2 unfolding unfold by (auto split: sum.splits)
      qed
    qed
  qed
qed


lemma category_bounds:
  assumes "v \<noteq> 0" "\<bar>v\<bar> < 2048"
  shows "1 \<le> category v" "category v \<le> 11"
proof -
  have "0 < nat \<bar>v\<bar> + 1" by simp
  moreover have "nat \<bar>v\<bar> + 1 \<le> 2 ^ 11" using assms(2) by simp
  ultimately show "category v \<le> 11"
    unfolding category_def by (subst ceillog2_le_iff) simp_all
  have "(2::nat) ^ 1 < 2 * (nat \<bar>v\<bar> + 1)" using assms(1) by simp
  then show "1 \<le> category v"
    unfolding category_def by (subst ceillog2_ge_iff) simp_all
qed

lemma codewords_category:
  assumes "v \<noteq> 0" "\<bar>v\<bar> < 2048"
  shows "\<exists>enc. codewords v = Inr enc \<and> unat (numBits enc) = category v"
proof -
  define k where "k = nat \<bar>v\<bar>"
  have k: "1 \<le> k" "k < CodeWordLimit" using assms by (simp_all add: k_def CodeWordLimit_def)
  have c11: "ceillog2 (k + 1) \<le> 11"
    using category_bounds(2) [OF assms] by (simp add: category_def k_def)
  then have un: "unat (of_nat (ceillog2 (k + 1)) :: u8) = ceillog2 (k + 1)"
    by (simp add: unat_of_nat)
  have cat: "category v = ceillog2 (k + 1)" by (simp add: category_def k_def)
  show ?thesis
  proof (cases "0 < v")
    case True
    then have "v = int k" by (simp add: k_def)
    then show ?thesis using codewords_value(1) [OF k] un cat by simp
  next
    case False
    then have "v = - int k" using assms(1) by (simp add: k_def)
    then show ?thesis using codewords_value(2) [OF k] un cat by simp
  qed
qed

lemma spec_rle_zeros: "spec_rle r (replicate n 0 @ xs) = spec_rle (r + n) xs"
  by (induction n arbitrary: r) simp_all

lemma spec_rle_only_zeros: "spec_rle r (replicate n 0) = (if 0 < r + n then [0] else [])"
  using spec_rle_zeros [of r n "[]"] by simp

lemma drop_zero_run:
  assumes "i \<le> i1" "i1 < length q" "\<forall>j. i \<le> j \<and> j < i1 \<longrightarrow> q ! j = (0 :: i16)"
  shows "map sint (drop i q) = replicate (i1 - i) 0 @ sint (q ! i1) # map sint (drop (Suc i1) q)"
proof -
  have "drop i q = take (i1 - i) (drop i q) @ drop (i1 - i) (drop i q)"
    by (rule append_take_drop_id [symmetric])
  moreover have "drop (i1 - i) (drop i q) = q ! i1 # drop (Suc i1) q"
    using assms(1,2) by (simp add: Cons_nth_drop_Suc)
  moreover have "take (i1 - i) (drop i q) = replicate (i1 - i) 0"
    using assms by (intro nth_equalityI) auto
  ultimately have "drop i q = replicate (i1 - i) 0 @ q ! i1 # drop (Suc i1) q"
    by simp
  then show ?thesis by (simp add: map_replicate)
qed

lemma drop_all_zero:
  assumes "\<forall>j. i \<le> j \<and> j < length q \<longrightarrow> q ! j = (0 :: i16)"
  shows "map sint (drop i q) = replicate (length q - i) 0"
  using assms by (intro nth_equalityI) auto

lemma ac_loop_rle:
  assumes "length quantized = 64" "pos < 64" "ac_i s \<le> pos \<longrightarrow> quantized ! pos \<noteq> 0"
    and "ac_offset s = 0" "ac_i s \<le> Suc pos"
    and "\<forall>j. pos < j \<and> j < 64 \<longrightarrow> quantized ! j = 0"
    and "\<forall>j. ac_i s \<le> j \<and> j < 64 \<longrightarrow> \<bar>sint (quantized ! j)\<bar> < 2048"
    and "256 \<le> length huffmanAC"
  shows "\<exists>s'. ac_loop quantized pos huffmanAC s = Inr s' \<and>
           ac_symbols s' @ (if pos < 63 then [0] else []) =
             ac_symbols s @ spec_rle 0 (map sint (drop (ac_i s) quantized))"
  using assms
proof (induction quantized pos huffmanAC s rule: ac_loop.induct)
  case (1 quantized pos huffmanAC s)
  show ?case
  proof (cases "ac_i s \<le> pos")
    case False
    then have i: "ac_i s = Suc pos" using "1.prems"(5) by simp
    have "ac_loop quantized pos huffmanAC s = Inr s"
      using False by (subst ac_loop.simps) simp
    moreover have "map sint (drop (ac_i s) quantized) = replicate (63 - pos) 0"
      using drop_all_zero [of "Suc pos" quantized] "1.prems"(1,6) i by simp
    ultimately show ?thesis
      by (simp add: spec_rle_only_zeros)
  next
    case True
    then have nz: "quantized ! pos \<noteq> 0" using "1.prems"(3) by simp
    have plen: "pos < length quantized" using "1.prems"(1,2) by simp
    from skip_zeros_spec [OF True plen nz, of 0 huffmanAC] "1.prems"(4)
    obtain s1 where s1: "skip_zeros quantized huffmanAC s = Inr s1"
      "ac_i s \<le> ac_i s1" "ac_i s1 \<le> pos" "quantized ! ac_i s1 \<noteq> 0"
      "\<forall>j. ac_i s \<le> j \<and> j < ac_i s1 \<longrightarrow> quantized ! j = 0"
      "ac_symbols s1 = ac_symbols s @ replicate ((ac_i s1 - ac_i s) div 16) 0xF0"
      "ac_offset s1 = 16 * ((ac_i s1 - ac_i s) mod 16)"
      by auto
    define n where "n = ac_i s1 - ac_i s"
    define v where "v = sint (quantized ! ac_i s1)"
    have v0: "v \<noteq> 0" using s1(4) by (simp add: v_def signed_eq_0_iff)
    have vr: "\<bar>v\<bar> < 2048" using "1.prems"(7) s1(2,3) "1.prems"(2) by (simp add: v_def)
    obtain encoded where cw: "codewords v = Inr encoded" "unat (numBits encoded) = category v"
      using codewords_category [OF v0 vr] by blast
    have "ac_offset s1 + unat (numBits encoded) < 256"
      using s1(7) cw(2) category_bounds(2) [OF v0 vr] by simp
    then obtain hc where hu: "huffman_at huffmanAC (ac_offset s1 + unat (numBits encoded)) = Inr hc"
      using "1.prems"(8) by (simp add: huffman_at_def)
    define s2 where "s2 = s1\<lparr>ac_writer := put_bits (put_bits (ac_writer s1) hc) encoded,
                             q_reads := q_reads s1 @ [ac_i s1],
                             cw_reads := cw_reads s1 @ [v],
                             ac_symbols := ac_symbols s1 @ [ac_offset s1 + unat (numBits encoded)],
                             ac_offset := 0,
                             ac_i := ac_i s1 + 1\<rparr>"
    have unfold: "ac_loop quantized pos huffmanAC s = ac_loop quantized pos huffmanAC s2"
      using True s1(1) cw(1) hu by (subst ac_loop.simps) (simp add: v_def Let_def s2_def)
    have IH: "\<exists>s'. ac_loop quantized pos huffmanAC s2 = Inr s' \<and>
           ac_symbols s' @ (if pos < 63 then [0] else []) =
             ac_symbols s2 @ spec_rle 0 (map sint (drop (ac_i s2) quantized))"
      unfolding s2_def
      by (rule "1.IH" [OF True s1(1) v_def cw(1) hu]) (use "1.prems" nz s1(2,3) in simp_all)
    have "map sint (drop (ac_i s) quantized) =
            replicate n 0 @ v # map sint (drop (Suc (ac_i s1)) quantized)"
      unfolding n_def v_def using s1(2,3,5) plen by (intro drop_zero_run) simp_all
    then have "spec_rle 0 (map sint (drop (ac_i s) quantized)) =
        replicate (n div 16) 0xF0 @ [16 * (n mod 16) + category v] @
          spec_rle 0 (map sint (drop (Suc (ac_i s1)) quantized))"
      using v0 by (simp add: spec_rle_zeros)
    moreover have "ac_symbols s2 = ac_symbols s @ replicate (n div 16) 0xF0 @ [16 * (n mod 16) + category v]"
      using s1(6,7) cw(2) by (simp add: s2_def n_def)
    moreover have "ac_i s2 = Suc (ac_i s1)" by (simp add: s2_def)
    ultimately show ?thesis using IH unfold by auto
  qed
qed

lemma assign_codes_length: "length (fst (assign_codes n nb st)) = length (fst st)"
  by (induction n nb st rule: assign_codes.induct) simp_all

lemma generateHuffmanTable_length: "length (generateHuffmanTable numCodes values) = 256"
proof -
  have "length (fst (fold (\<lambda>nb st.
                  case assign_codes (unat (numCodes ! (nb - 1))) (of_nat nb) st of
                    (result, huffmanCode, rest) \<Rightarrow> (result, push_bit 1 huffmanCode, rest))
            ns st0)) = length (fst st0)" for ns st0
  proof (induction ns arbitrary: st0)
    case Nil
    show ?case by simp
  next
    case (Cons nb ns)
    obtain r c vs where a: "assign_codes (unat (numCodes ! (nb - 1))) (of_nat nb) st0 = (r, c, vs)"
      using prod_cases3 by blast
    have "length r = length (fst st0)"
      using assign_codes_length [of "unat (numCodes ! (nb - 1))" "of_nat nb" st0] a by simp
    then show ?case using Cons.IH [of "(r, push_bit 1 c, vs)"] a by simp
  qed
  then show ?thesis by (simp add: generateHuffmanTable_def)
qed

lemma huffman_length:
  "length (fst (huffman K luminance)) = 256" "length (snd (huffman K luminance)) = 256"
  by (simp_all add: huffman_def generateHuffmanTable_length)

lemma encode_ac_reads:
  assumes "pos < length quantized" "1 \<le> pos \<longrightarrow> quantized ! pos \<noteq> 0"
  shows "case encode_ac quantized pos huffmanAC writer of
           Inl e \<Rightarrow> e \<noteq> QuantizedOutOfBounds
         | Inr s' \<Rightarrow> set (q_reads s') \<subseteq> {1..pos} \<and> 0 \<notin> set (cw_reads s')"
proof -
  define s0 where "s0 = \<lparr>ac_i = 1, ac_offset = 0, ac_writer = writer,
              q_reads = [], cw_reads = [], ac_symbols = []\<rparr>"
  have "case ac_loop quantized pos huffmanAC s0 of
           Inl e \<Rightarrow> e \<noteq> QuantizedOutOfBounds
         | Inr s' \<Rightarrow> set (q_reads s') \<subseteq> set (q_reads s0) \<union> {ac_i s0..pos} \<and>
                     set (cw_reads s') \<subseteq> set (cw_reads s0) \<union> {v. v \<noteq> 0}"
    by (rule ac_loop_reads) (use assms in \<open>simp_all add: s0_def\<close>)
  then show ?thesis
    unfolding encode_ac_def s0_def [symmetric]
    by (auto simp: s0_def split: sum.splits)
qed


subsection \<open>The bit codes of a block\<close>

lemma codewords_spec:
  assumes "v \<noteq> 0" "\<bar>v\<bar> < 2048"
  shows "codewords v = Inr (spec_codeword v)"
proof -
  define k where "k = nat \<bar>v\<bar>"
  have k: "1 \<le> k" "k < CodeWordLimit" using assms by (simp_all add: k_def CodeWordLimit_def)
  have cat: "category v = ceillog2 (k + 1)" by (simp add: category_def k_def)
  have le: "k + 1 \<le> 2 ^ ceillog2 (k + 1)" by (rule le_two_power_ceillog2)
  show ?thesis
  proof (cases "0 < v")
    case True
    then have "v = int k" by (simp add: k_def)
    then show ?thesis using codewords_value(1) [OF k] cat by (simp add: spec_codeword_def)
  next
    case False
    then have v: "v = - int k" using assms(1) by (simp add: k_def)
    have "int (2 ^ ceillog2 (k + 1) - 1 - k) = int (2 ^ ceillog2 (k + 1)) - 1 - int k"
      using le by (simp add: of_nat_diff)
    moreover have "v + (2 ^ category v - 1) = int (2 ^ ceillog2 (k + 1)) - 1 - int k"
      by (simp add: cat) (simp add: v)
    ultimately have "int (2 ^ ceillog2 (k + 1) - 1 - k) = v + (2 ^ category v - 1)"
      by simp
    then have "(of_nat (2 ^ ceillog2 (k + 1) - 1 - k) :: u16) = word_of_int (v + (2 ^ category v - 1))"
      by (metis of_int_of_nat_eq)
    then show ?thesis using codewords_value(2) [OF k] cat v False assms(1)
      by (simp add: spec_codeword_def)
  qed
qed

lemma skip_zeros_writer:
  "skip_zeros quantized huffmanAC s = Inr s' \<Longrightarrow>
   \<exists>k. ac_symbols s' = ac_symbols s @ replicate k 0xF0 \<and>
       ac_writer s' = foldl put_bits (ac_writer s) (replicate k (huffmanAC ! 0xF0))"
proof (induction quantized huffmanAC s rule: skip_zeros.induct)
  case (1 quantized huffmanAC s)
  show ?case
  proof (cases "length quantized \<le> ac_i s")
    case True
    then show ?thesis using "1.prems" by (subst (asm) skip_zeros.simps) simp
  next
    case inb: False
    show ?thesis
    proof (cases "quantized ! ac_i s = 0")
      case False
      then have "s' = s\<lparr>q_reads := q_reads s @ [ac_i s]\<rparr>"
        using "1.prems" inb by (subst (asm) skip_zeros.simps) auto
      then show ?thesis by (intro exI [of _ 0]) simp
    next
      case zero: True
      define s1 where "s1 = s\<lparr>q_reads := q_reads s @ [ac_i s], ac_offset := ac_offset s + 0x10\<rparr>"
      show ?thesis
      proof (cases "0xF0 < ac_offset s1")
        case True
        define s2 where "s2 = s1\<lparr>ac_writer := put_bits (ac_writer s1) (huffmanAC ! 0xF0),
                       ac_symbols := ac_symbols s1 @ [0xF0],
                       ac_offset := 0,
                       ac_i := ac_i s1 + 1\<rparr>"
        have run: "skip_zeros quantized huffmanAC s2 = Inr s'"
          using "1.prems" inb zero True
          by (subst (asm) skip_zeros.simps) (simp add: s1_def s2_def Let_def)
        have "\<exists>k. ac_symbols s' = ac_symbols s2 @ replicate k 0xF0 \<and>
            ac_writer s' = foldl put_bits (ac_writer s2) (replicate k (huffmanAC ! 0xF0))"
          unfolding s2_def
          by (rule "1.IH"(1) [OF inb zero s1_def True]) (use run in \<open>simp add: s2_def\<close>)
        then obtain k where k: "ac_symbols s' = ac_symbols s2 @ replicate k 0xF0"
          "ac_writer s' = foldl put_bits (ac_writer s2) (replicate k (huffmanAC ! 0xF0))"
          by blast
        show ?thesis
          using k by (intro exI [of _ "Suc k"]) (simp add: s2_def s1_def)
      next
        case False
        define s2 where "s2 = s1\<lparr>ac_i := ac_i s1 + 1\<rparr>"
        have run: "skip_zeros quantized huffmanAC s2 = Inr s'"
          using "1.prems" inb zero False
          by (subst (asm) skip_zeros.simps) (simp add: s1_def s2_def Let_def)
        have "\<exists>k. ac_symbols s' = ac_symbols s2 @ replicate k 0xF0 \<and>
            ac_writer s' = foldl put_bits (ac_writer s2) (replicate k (huffmanAC ! 0xF0))"
          unfolding s2_def
          by (rule "1.IH"(2) [OF inb zero s1_def False]) (use run in \<open>simp add: s2_def\<close>)
        then show ?thesis by (simp add: s2_def s1_def)
      qed
    qed
  qed
qed

lemma ac_loop_codes:
  assumes "length quantized = 64" "pos < 64" "ac_i s \<le> pos \<longrightarrow> quantized ! pos \<noteq> 0"
    and "ac_offset s = 0" "ac_i s \<le> Suc pos"
    and "\<forall>j. pos < j \<and> j < 64 \<longrightarrow> quantized ! j = 0"
    and "\<forall>j. ac_i s \<le> j \<and> j < 64 \<longrightarrow> \<bar>sint (quantized ! j)\<bar> < 2048"
    and "256 \<le> length huffmanAC"
  shows "\<exists>s'. ac_loop quantized pos huffmanAC s = Inr s' \<and>
           foldl put_bits (ac_writer s') (if pos < 63 then [huffmanAC ! 0] else []) =
             foldl put_bits (ac_writer s)
               (spec_ac_codes huffmanAC 0 (map sint (drop (ac_i s) quantized)))"
  using assms
proof (induction quantized pos huffmanAC s rule: ac_loop.induct)
  case (1 quantized pos huffmanAC s)
  have zeros_codes: "spec_ac_codes huffmanAC r (replicate n 0 @ xs) = spec_ac_codes huffmanAC (r + n) xs"
    for r n xs
    by (induction n arbitrary: r) simp_all
  show ?case
  proof (cases "ac_i s \<le> pos")
    case False
    then have i: "ac_i s = Suc pos" using "1.prems"(5) by simp
    have "ac_loop quantized pos huffmanAC s = Inr s"
      using False by (subst ac_loop.simps) simp
    moreover have "map sint (drop (ac_i s) quantized) = replicate (63 - pos) 0"
      using drop_all_zero [of "Suc pos" quantized] "1.prems"(1,6) i by simp
    moreover have "spec_ac_codes huffmanAC 0 (replicate (63 - pos) 0) =
        (if pos < 63 then [huffmanAC ! 0] else [])"
      using zeros_codes [of 0 "63 - pos" "[]"] "1.prems"(2) by auto
    ultimately show ?thesis by simp
  next
    case True
    then have nz: "quantized ! pos \<noteq> 0" using "1.prems"(3) by simp
    have plen: "pos < length quantized" using "1.prems"(1,2) by simp
    from skip_zeros_spec [OF True plen nz, of 0 huffmanAC] "1.prems"(4)
    obtain s1 where s1: "skip_zeros quantized huffmanAC s = Inr s1"
      "ac_i s \<le> ac_i s1" "ac_i s1 \<le> pos" "quantized ! ac_i s1 \<noteq> 0"
      "\<forall>j. ac_i s \<le> j \<and> j < ac_i s1 \<longrightarrow> quantized ! j = 0"
      "ac_symbols s1 = ac_symbols s @ replicate ((ac_i s1 - ac_i s) div 16) 0xF0"
      "ac_offset s1 = 16 * ((ac_i s1 - ac_i s) mod 16)"
      by auto
    define n where "n = ac_i s1 - ac_i s"
    obtain k where k: "ac_symbols s1 = ac_symbols s @ replicate k 0xF0"
      "ac_writer s1 = foldl put_bits (ac_writer s) (replicate k (huffmanAC ! 0xF0))"
      using skip_zeros_writer [OF s1(1)] by blast
    have "length (replicate k (0xF0 :: nat)) = length (replicate (n div 16) (0xF0 :: nat))"
      using k(1) s1(6) unfolding n_def by (metis same_append_eq)
    then have keq: "k = n div 16" by simp
    define v where "v = sint (quantized ! ac_i s1)"
    have v0: "v \<noteq> 0" using s1(4) by (simp add: v_def signed_eq_0_iff)
    have vr: "\<bar>v\<bar> < 2048" using "1.prems"(7) s1(2,3) "1.prems"(2) by (simp add: v_def)
    have cw: "codewords v = Inr (spec_codeword v)" using v0 vr by (rule codewords_spec)
    have nb: "unat (numBits (spec_codeword v)) = category v"
      using codewords_category [OF v0 vr] cw by simp
    have "ac_offset s1 + unat (numBits (spec_codeword v)) < 256"
      using s1(7) nb category_bounds(2) [OF v0 vr] by simp
    then have hu: "huffman_at huffmanAC (ac_offset s1 + unat (numBits (spec_codeword v))) =
        Inr (huffmanAC ! (16 * (n mod 16) + category v))"
      using "1.prems"(8) s1(7) nb by (simp add: huffman_at_def n_def)
    define s2 where "s2 = s1\<lparr>ac_writer := put_bits (put_bits (ac_writer s1)
                                 (huffmanAC ! (16 * (n mod 16) + category v))) (spec_codeword v),
                             q_reads := q_reads s1 @ [ac_i s1],
                             cw_reads := cw_reads s1 @ [v],
                             ac_symbols := ac_symbols s1 @ [ac_offset s1 + unat (numBits (spec_codeword v))],
                             ac_offset := 0,
                             ac_i := ac_i s1 + 1\<rparr>"
    have unfold: "ac_loop quantized pos huffmanAC s = ac_loop quantized pos huffmanAC s2"
      using True s1(1) cw hu by (subst ac_loop.simps) (simp add: v_def Let_def s2_def)
    have IH: "\<exists>s'. ac_loop quantized pos huffmanAC s2 = Inr s' \<and>
           foldl put_bits (ac_writer s') (if pos < 63 then [huffmanAC ! 0] else []) =
             foldl put_bits (ac_writer s2)
               (spec_ac_codes huffmanAC 0 (map sint (drop (ac_i s2) quantized)))"
      unfolding s2_def
      by (rule "1.IH" [OF True s1(1) v_def cw hu]) (use "1.prems" nz s1(2,3) in simp_all)
    have "map sint (drop (ac_i s) quantized) =
            replicate n 0 @ v # map sint (drop (Suc (ac_i s1)) quantized)"
      unfolding n_def v_def using s1(2,3,5) plen by (intro drop_zero_run) simp_all
    then have "spec_ac_codes huffmanAC 0 (map sint (drop (ac_i s) quantized)) =
        replicate (n div 16) (huffmanAC ! 0xF0) @
        [huffmanAC ! (16 * (n mod 16) + category v), spec_codeword v] @
          spec_ac_codes huffmanAC 0 (map sint (drop (Suc (ac_i s1)) quantized))"
      using v0 by (simp add: zeros_codes)
    moreover have "ac_writer s2 = foldl put_bits (ac_writer s)
        (replicate (n div 16) (huffmanAC ! 0xF0) @
         [huffmanAC ! (16 * (n mod 16) + category v), spec_codeword v])"
      using k(2) keq by (simp add: s2_def)
    moreover have "ac_i s2 = Suc (ac_i s1)" by (simp add: s2_def)
    ultimately show ?thesis using IH unfold by auto
  qed
qed

lemma encode_ac_codes:
  assumes "length quantized0 = 64"
    and "quantize fp block1 quantized0 = (quantized, posNonZero)"
    and "\<forall>j. 1 \<le> j \<and> j < 64 \<longrightarrow> \<bar>sint (quantized ! j)\<bar> < 2048"
    and "256 \<le> length huffmanAC"
  shows "\<exists>s. encode_ac quantized posNonZero huffmanAC writer = Inr s \<and>
           ac_writer s = foldl put_bits writer
             (spec_ac_codes huffmanAC 0 (map sint (drop 1 quantized)))"
proof -
  note q = quantize_props [OF assms(1,2)]
  define s0 where "s0 = \<lparr>ac_i = 1, ac_offset = 0, ac_writer = writer,
              q_reads = [], cw_reads = [], ac_symbols = []\<rparr>"
  have "\<exists>s'. ac_loop quantized posNonZero huffmanAC s0 = Inr s' \<and>
           foldl put_bits (ac_writer s') (if posNonZero < 63 then [huffmanAC ! 0] else []) =
             foldl put_bits (ac_writer s0)
               (spec_ac_codes huffmanAC 0 (map sint (drop (ac_i s0) quantized)))"
    by (rule ac_loop_codes) (use q assms(3,4) in \<open>auto simp: s0_def\<close>)
  then obtain s' where s': "ac_loop quantized posNonZero huffmanAC s0 = Inr s'"
    "foldl put_bits (ac_writer s') (if posNonZero < 63 then [huffmanAC ! 0] else []) =
       foldl put_bits writer (spec_ac_codes huffmanAC 0 (map sint (drop 1 quantized)))"
    by (auto simp: s0_def)
  show ?thesis
    using s' unfolding encode_ac_def s0_def [symmetric] by (auto split: if_splits)
qed

lemma encode_dc_codes:
  assumes "\<bar>diff\<bar> < 2048"
  shows "\<exists>reads. encode_dc huffmanDC writer diff =
           Inr (foldl put_bits writer (spec_dc_codes huffmanDC diff), reads)"
proof (cases "diff = 0")
  case True
  then show ?thesis by (simp add: encode_dc_def spec_dc_codes_def)
next
  case False
  have cw: "codewords diff = Inr (spec_codeword diff)" using False assms by (rule codewords_spec)
  have "unat (numBits (spec_codeword diff)) = category diff"
    using codewords_category [OF False assms] cw by simp
  then show ?thesis using False cw by (simp add: encode_dc_def spec_dc_codes_def)
qed

lemma count_list_replicate: "count_list (replicate n x) y = (if x = y then n else 0)"
  by (induction n) auto

lemma spec_rle_count_zrl:
  assumes "\<forall>c \<in> set cs. c \<noteq> 0 \<longrightarrow> 1 \<le> category c \<and> category c \<le> 11"
  shows "count_list (spec_rle r cs) 0xF0 = spec_zrl_count r cs"
  using assms
proof (induction r cs rule: spec_rle.induct)
  case (1 run)
  show ?case by simp
next
  case (2 run c cs)
  show ?case
  proof (cases "c = 0")
    case True
    then show ?thesis using 2 by simp
  next
    case False
    then have cat: "1 \<le> category c" "category c \<le> 11" using "2.prems" by simp_all
    have "16 * (run mod 16) + category c \<noteq> 240"
    proof
      assume "16 * (run mod 16) + category c = 240"
      then have "category c mod 16 = 0" by presburger
      with cat show False by simp
    qed
    then show ?thesis using False 2 by (simp add: count_list_append count_list_replicate)
  qed
qed

lemma spec_rle_count_eob:
  assumes "\<forall>c \<in> set cs. c \<noteq> 0 \<longrightarrow> 1 \<le> category c \<and> category c \<le> 11"
  shows "count_list (spec_rle r cs) 0 =
           (if cs = [] then (if 0 < r then 1 else 0) else if last cs = 0 then 1 else 0)"
  using assms
proof (induction r cs rule: spec_rle.induct)
  case (1 run)
  show ?case by simp
next
  case (2 run c cs)
  show ?case
  proof (cases "c = 0")
    case True
    then show ?thesis using 2 by simp
  next
    case False
    then have cat: "1 \<le> category c" using "2.prems" by simp
    then show ?thesis using False 2 by (simp add: count_list_append count_list_replicate)
  qed
qed

lemma encode_ac_rle:
  assumes "length quantized0 = 64"
    and "quantize fp block1 quantized0 = (quantized, posNonZero)"
    and "\<forall>j. 1 \<le> j \<and> j < 64 \<longrightarrow> \<bar>sint (quantized ! j)\<bar> < 2048"
    and "256 \<le> length huffmanAC"
  shows "\<exists>s. encode_ac quantized posNonZero huffmanAC writer = Inr s \<and>
           ac_symbols s = spec_rle 0 (map sint (drop 1 quantized))"
proof -
  note q = quantize_props [OF assms(1,2)]
  define s0 where "s0 = \<lparr>ac_i = 1, ac_offset = 0, ac_writer = writer,
              q_reads = [], cw_reads = [], ac_symbols = []\<rparr>"
  have "\<exists>s'. ac_loop quantized posNonZero huffmanAC s0 = Inr s' \<and>
           ac_symbols s' @ (if posNonZero < 63 then [0] else []) =
             ac_symbols s0 @ spec_rle 0 (map sint (drop (ac_i s0) quantized))"
    by (rule ac_loop_rle) (use q assms(3,4) in \<open>auto simp: s0_def\<close>)
  then obtain s' where s': "ac_loop quantized posNonZero huffmanAC s0 = Inr s'"
    "ac_symbols s' @ (if posNonZero < 63 then [0] else []) = spec_rle 0 (map sint (drop 1 quantized))"
    by (auto simp: s0_def)
  show ?thesis
    using s' unfolding encode_ac_def s0_def [symmetric] by auto
qed

lemma encode_dc_returns:
  assumes "\<bar>diff\<bar> < 2048"
  shows "\<exists>w1 reads. encode_dc huffmanDC writer diff = Inr (w1, reads) \<and> 0 \<notin> set reads \<and>
           appends_stuffed writer w1"
proof (cases "diff = 0")
  case True
  then show ?thesis by (simp add: encode_dc_def appends_stuffed_put_bits)
next
  case False
  then obtain enc where "codewords diff = Inr enc"
    using codewords_category [OF False assms] by blast
  then show ?thesis using False
    by (simp add: encode_dc_def appends_stuffed_put_bits appends_stuffed_put_bits_trans)
qed


lemma encode_dc_Inr:
  assumes "encode_dc huffmanDC writer diff = Inr (w1, reads)"
  shows "0 \<notin> set reads" "appends_stuffed writer w1"
  using assms
  by (auto simp: encode_dc_def appends_stuffed_put_bits appends_stuffed_put_bits_trans
      split: if_splits sum.splits)

lemma encode_ac_stuffed:
  assumes "encode_ac quantized posNonZero huffmanAC writer = Inr s"
  shows "appends_stuffed writer (ac_writer s)"
proof -
  define s0 where "s0 = \<lparr>ac_i = 1, ac_offset = 0, ac_writer = writer,
              q_reads = [], cw_reads = [], ac_symbols = []\<rparr>"
  from assms obtain s1 where s1: "ac_loop quantized posNonZero huffmanAC s0 = Inr s1"
    and s: "s = (if posNonZero < 63
               then s1\<lparr>ac_writer := put_bits (ac_writer s1) (huffmanAC ! 0x00),
                      ac_symbols := ac_symbols s1 @ [0x00]\<rparr>
               else s1)"
    unfolding encode_ac_def s0_def [symmetric] by (auto split: sum.splits)
  have "appends_stuffed (ac_writer s0) (ac_writer s1)"
    using s1 by (rule ac_loop_stuffed)
  then have "appends_stuffed writer (ac_writer s1)" by (simp add: s0_def)
  then show ?thesis
    using s by (auto simp: appends_stuffed_put_bits_trans)
qed

lemma encode_block_cases:
  assumes "quantize fp (map (dct_scale fp scaled block64) [0..<64]) quantized0 = (quantized, posNonZero)"
  shows "encode_block luminance K fp writer block64 scaled lastDC quantized0 =
     (case encode_dc (fst (huffman K luminance)) writer
             (round_int fp (dct_scale fp scaled block64 0) - sint lastDC) of
        Inl e \<Rightarrow> Inl e
      | Inr (w1, dc_reads) \<Rightarrow>
          (case encode_ac quantized posNonZero (snd (huffman K luminance)) w1 of
             Inl e \<Rightarrow> Inl e
           | Inr s \<Rightarrow>
               Inr \<lparr>br_writer = ac_writer s,
                    br_block = map (dct_scale fp scaled block64) [0..<64],
                    br_DC = word_of_int (round_int fp (dct_scale fp scaled block64 0)),
                    br_q_reads = q_reads s, br_cw_reads = dc_reads @ cw_reads s,
                    br_ac_symbols = ac_symbols s\<rparr>))"
proof -
  have z: "map (dct_scale fp scaled block64) [0..<64] ! 0 = dct_scale fp scaled block64 0"
    by (simp del: upt_Suc)
  show ?thesis
    unfolding encode_block_def Let_def z assms
    by (simp add: case_prod_beta del: upt_Suc split: sum.splits)
qed

lemma encode_block_Inr:
  assumes "length quantized0 = 64"
    and "encode_block luminance K fp writer block64 scaled lastDC quantized0 = Inr r"
  shows "0 \<notin> set (br_cw_reads r)" "appends_stuffed writer (br_writer r)"
    "set (br_q_reads r) \<subseteq> {1..63}"
    "br_DC r = word_of_int (round_int fp (dct_scale fp scaled block64 0))"
    "br_block r = map (dct_scale fp scaled block64) [0..<64]"
proof -
  obtain quantized posNonZero where
    q: "quantize fp (map (dct_scale fp scaled block64) [0..<64]) quantized0 = (quantized, posNonZero)"
    by (cases "quantize fp (map (dct_scale fp scaled block64) [0..<64]) quantized0")
  note qp = quantize_props [OF assms(1) q]
  from assms(2) obtain w1 dc_reads s where
    dc: "encode_dc (fst (huffman K luminance)) writer
             (round_int fp (dct_scale fp scaled block64 0) - sint lastDC) = Inr (w1, dc_reads)"
    and ac: "encode_ac quantized posNonZero (snd (huffman K luminance)) w1 = Inr s"
    and r: "r = \<lparr>br_writer = ac_writer s,
                    br_block = map (dct_scale fp scaled block64) [0..<64],
                    br_DC = word_of_int (round_int fp (dct_scale fp scaled block64 0)),
                    br_q_reads = q_reads s, br_cw_reads = dc_reads @ cw_reads s,
                    br_ac_symbols = ac_symbols s\<rparr>"
    unfolding encode_block_cases [OF q] by (auto split: sum.splits prod.splits)
  have reads: "set (q_reads s) \<subseteq> {1..posNonZero} \<and> 0 \<notin> set (cw_reads s)"
    using encode_ac_reads [of posNonZero quantized "snd (huffman K luminance)" w1] qp(1,2,3) ac
    by auto
  show "0 \<notin> set (br_cw_reads r)"
    using encode_dc_Inr(1) [OF dc] reads by (simp add: r)
  show "appends_stuffed writer (br_writer r)"
    using encode_dc_Inr(2) [OF dc] encode_ac_stuffed [OF ac] appends_stuffed_trans
    by (auto simp: r)
  show "set (br_q_reads r) \<subseteq> {1..63}"
    using reads qp(2) by (auto simp: r)
  show "br_DC r = word_of_int (round_int fp (dct_scale fp scaled block64 0))"
    "br_block r = map (dct_scale fp scaled block64) [0..<64]"
    by (simp_all add: r)
qed

lemma encode_block_rle:
  assumes "length quantized0 = 64"
    and "quantize fp (map (dct_scale fp scaled block64) [0..<64]) quantized0 = (quantized, posNonZero)"
    and "\<forall>j. 1 \<le> j \<and> j < 64 \<longrightarrow> \<bar>sint (quantized ! j)\<bar> < 2048"
    and "\<bar>round_int fp (dct_scale fp scaled block64 0) - sint lastDC\<bar> < 2048"
  shows "\<exists>r. encode_block luminance K fp writer block64 scaled lastDC quantized0 = Inr r \<and>
      br_ac_symbols r = spec_rle 0 (map sint (drop 1 quantized)) \<and>
      count_list (br_ac_symbols r) 0xF0 = spec_zrl_count 0 (map sint (drop 1 quantized)) \<and>
      count_list (br_ac_symbols r) 0x00 = (if quantized ! 63 = 0 then 1 else 0) \<and>
      (posNonZero < 63 \<longleftrightarrow> quantized ! 63 = 0)"
proof -
  note qp = quantize_props [OF assms(1,2)]
  obtain w1 dc_reads where
    dc: "encode_dc (fst (huffman K luminance)) writer
             (round_int fp (dct_scale fp scaled block64 0) - sint lastDC) = Inr (w1, dc_reads)"
    using encode_dc_returns [OF assms(4)] by blast
  obtain s where ac: "encode_ac quantized posNonZero (snd (huffman K luminance)) w1 = Inr s"
    and sym: "ac_symbols s = spec_rle 0 (map sint (drop 1 quantized))"
    using encode_ac_rle [OF assms(1,2,3), of "snd (huffman K luminance)" w1]
    by (auto simp: huffman_length)
  define r where "r = \<lparr>br_writer = ac_writer s,
                    br_block = map (dct_scale fp scaled block64) [0..<64],
                    br_DC = word_of_int (round_int fp (dct_scale fp scaled block64 0)),
                    br_q_reads = q_reads s, br_cw_reads = dc_reads @ cw_reads s,
                    br_ac_symbols = ac_symbols s\<rparr>"
  have run: "encode_block luminance K fp writer block64 scaled lastDC quantized0 = Inr r"
    unfolding encode_block_cases [OF assms(2)] by (simp add: dc ac r_def)
  have cats: "\<forall>c \<in> set (map sint (drop 1 quantized)). c \<noteq> 0 \<longrightarrow> 1 \<le> category c \<and> category c \<le> 11"
  proof (intro ballI impI)
    fix c assume c: "c \<in> set (map sint (drop 1 quantized))" "c \<noteq> 0"
    then obtain j where "j < length (drop 1 quantized)" "c = sint (drop 1 quantized ! j)"
      by (auto simp: in_set_conv_nth)
    then have "\<bar>c\<bar> < 2048" using assms(3) qp(1) by simp
    then show "1 \<le> category c \<and> category c \<le> 11"
      using category_bounds [OF c(2)] by simp
  qed
  have ne: "map sint (drop 1 quantized) \<noteq> []" using qp(1) by auto
  have lst: "last (map sint (drop 1 quantized)) = sint (quantized ! 63)"
    using qp(1) ne by (simp add: last_map last_drop last_conv_nth)
  have eob: "count_list (br_ac_symbols r) 0x00 = (if quantized ! 63 = 0 then 1 else 0)"
    using spec_rle_count_eob [OF cats, of 0] ne lst
    by (simp add: r_def sym signed_eq_0_iff)
  have zrl: "count_list (br_ac_symbols r) 0xF0 = spec_zrl_count 0 (map sint (drop 1 quantized))"
    using spec_rle_count_zrl [OF cats, of 0] by (simp add: r_def sym)
  have pos: "posNonZero < 63 \<longleftrightarrow> quantized ! 63 = 0"
  proof
    assume "posNonZero < 63"
    then show "quantized ! 63 = 0" using qp(4) [of 63] by simp
  next
    assume z: "quantized ! 63 = 0"
    show "posNonZero < 63"
    proof (rule ccontr)
      assume "\<not> posNonZero < 63"
      then have "posNonZero = 63" using qp(2) by simp
      then show False using qp(3) z by simp
    qed
  qed
  show ?thesis
    using run sym eob zrl pos by (intro exI [of _ r]) (simp add: r_def)
qed

lemma encode_block_codes:
  assumes "length quantized0 = 64"
    and "quantize fp (map (dct_scale fp scaled block64) [0..<64]) quantized0 = (quantized, posNonZero)"
    and "\<forall>j. 1 \<le> j \<and> j < 64 \<longrightarrow> \<bar>sint (quantized ! j)\<bar> < 2048"
    and "\<bar>round_int fp (dct_scale fp scaled block64 0) - sint lastDC\<bar> < 2048"
  shows "\<exists>r. encode_block luminance K fp writer block64 scaled lastDC quantized0 = Inr r \<and>
      br_writer r = foldl put_bits writer
        (spec_dc_codes (fst (huffman K luminance))
           (round_int fp (dct_scale fp scaled block64 0) - sint lastDC) @
         spec_ac_codes (snd (huffman K luminance)) 0 (map sint (drop 1 quantized)))"
proof -
  obtain reads where
    dc: "encode_dc (fst (huffman K luminance)) writer
             (round_int fp (dct_scale fp scaled block64 0) - sint lastDC) =
           Inr (foldl put_bits writer (spec_dc_codes (fst (huffman K luminance))
                  (round_int fp (dct_scale fp scaled block64 0) - sint lastDC)), reads)"
    using encode_dc_codes [OF assms(4)] by blast
  obtain s where ac: "encode_ac quantized posNonZero (snd (huffman K luminance))
        (foldl put_bits writer (spec_dc_codes (fst (huffman K luminance))
                  (round_int fp (dct_scale fp scaled block64 0) - sint lastDC))) = Inr s"
    and wr: "ac_writer s = foldl put_bits
        (foldl put_bits writer (spec_dc_codes (fst (huffman K luminance))
                  (round_int fp (dct_scale fp scaled block64 0) - sint lastDC)))
        (spec_ac_codes (snd (huffman K luminance)) 0 (map sint (drop 1 quantized)))"
    using encode_ac_codes [OF assms(1,2,3), of "snd (huffman K luminance)"]
    by (auto simp: huffman_length)
  show ?thesis
    unfolding encode_block_cases [OF assms(2)] by (simp add: dc ac wr)
qed

text \<open>
  C4. For every block whose quantized coefficients lie inside the codeword table, the
  block encoder returns, and what it appends to the writer is the coding of the spec: the
  codes of the DC difference, then for the AC coefficients the Huffman code of ZRL
  \<open>0xF0\<close> once for every full run of 16 zeros in front of a non-zero coefficient (zeros
  behind the last non-zero coefficient give none), the Huffman code of the symbol and the
  codeword of every non-zero coefficient, and the Huffman code of EOB \<open>0x00\<close> once if
  position 63 is zero, that is if \<open>posNonZero < 63\<close>, and not at all otherwise. The
  symbols behind these Huffman codes are those of the run-length coding of the spec.
\<close>

theorem ac_run_length_coding:
  assumes "length quantized0 = 64"
    and "quantize fp (map (dct_scale fp scaled block64) [0..<64]) quantized0 = (quantized, posNonZero)"
    and "\<forall>j. 1 \<le> j \<and> j < 64 \<longrightarrow> \<bar>sint (quantized ! j)\<bar> < 2048"
    and "\<bar>round_int fp (dct_scale fp scaled block64 0) - sint lastDC\<bar> < 2048"
  shows "\<exists>r. encode_block luminance K fp writer block64 scaled lastDC quantized0 = Inr r \<and>
      br_writer r = foldl put_bits writer
        (spec_dc_codes (fst (huffman K luminance))
           (round_int fp (dct_scale fp scaled block64 0) - sint lastDC) @
         spec_ac_codes (snd (huffman K luminance)) 0 (map sint (drop 1 quantized))) \<and>
      br_ac_symbols r = spec_rle 0 (map sint (drop 1 quantized)) \<and>
      count_list (br_ac_symbols r) 0xF0 = spec_zrl_count 0 (map sint (drop 1 quantized)) \<and>
      count_list (br_ac_symbols r) 0x00 = (if quantized ! 63 = 0 then 1 else 0) \<and>
      (posNonZero < 63 \<longleftrightarrow> quantized ! 63 = 0)"
  using encode_block_rle [OF assms, of luminance K writer]
    encode_block_codes [OF assms, of luminance K writer]
  by auto

lemma example_quantize:
  "quantize int_ops (map (dct_scale int_ops (replicate 64 1) ((replicate 64 0)[40 := 7])) [0..<64])
     (replicate 64 0) = ((replicate 64 0)[20 := 7], 20)"
  by code_simp

lemma example_quantized_range:
  "\<forall>j. 1 \<le> j \<and> j < 64 \<longrightarrow> \<bar>sint (((replicate 64 0)[20 := 7] :: i16 list) ! j)\<bar> < 2048"
  by (simp add: nth_list_update)

lemma example_dc:
  "\<bar>round_int int_ops (dct_scale int_ops (replicate 64 1) ((replicate 64 0)[40 := 7]) 0) - sint (0 :: i16)\<bar> < 2048"
  by (simp add: int_ops_def clamp_def)

lemma example_rle:
  "spec_rle 0 (map sint (drop 1 ((replicate 64 0)[20 := 7] :: i16 list))) = [0xF0, 0x33, 0x00]"
  "spec_zrl_count 0 (map sint (drop 1 ((replicate 64 0)[20 := 7] :: i16 list))) = 1"
  by code_simp+

lemma example_codes:
  "spec_dc_codes hDC (round_int int_ops (dct_scale int_ops (replicate 64 1) ((replicate 64 0)[40 := 7]) 0)
       - sint (0 :: i16)) @
   spec_ac_codes hAC 0 (map sint (drop 1 ((replicate 64 0)[20 := 7] :: i16 list))) =
     [hDC ! 0x00, hAC ! 0xF0, hAC ! 0x33, \<lparr>code = 7, numBits = 3\<rparr>, hAC ! 0x00]"
  by code_simp


theorem ac_run_length_coding_witness:
  "length (replicate 64 0 :: i16 list) = 64 \<and>
   quantize int_ops (map (dct_scale int_ops (replicate 64 1) ((replicate 64 0)[40 := 7])) [0..<64])
     (replicate 64 0) = ((replicate 64 0)[20 := 7], 20) \<and>
   (\<exists>r. encode_block True annexK int_ops new_BitWriter ((replicate 64 0)[40 := 7])
          (replicate 64 1) 0 (replicate 64 0) = Inr r \<and>
        sink (br_writer r) = [0x3F, 0xCF, 0xFA, 0xFA] \<and>
        br_ac_symbols r = [0xF0, 0x33, 0x00] \<and>
        count_list (br_ac_symbols r) 0xF0 = 1 \<and>
        count_list (br_ac_symbols r) 0x00 = 1)"
proof -
  have len: "length (replicate 64 0 :: i16 list) = 64" by simp
  from ac_run_length_coding [OF len example_quantize example_quantized_range example_dc,
      of True annexK new_BitWriter]
  obtain r where r: "encode_block True annexK int_ops new_BitWriter ((replicate 64 0)[40 := 7])
          (replicate 64 1) 0 (replicate 64 0) = Inr r"
    and w: "br_writer r = foldl put_bits new_BitWriter
        (spec_dc_codes (fst (huffman annexK True))
           (round_int int_ops (dct_scale int_ops (replicate 64 1) ((replicate 64 0)[40 := 7]) 0)
              - sint (0 :: i16)) @
         spec_ac_codes (snd (huffman annexK True)) 0
           (map sint (drop 1 ((replicate 64 0)[20 := 7] :: i16 list))))"
    and sy: "br_ac_symbols r = spec_rle 0 (map sint (drop 1 ((replicate 64 0)[20 := 7] :: i16 list)))"
    and zrl: "count_list (br_ac_symbols r) 0xF0 =
                spec_zrl_count 0 (map sint (drop 1 ((replicate 64 0)[20 := 7] :: i16 list)))"
    and eob: "count_list (br_ac_symbols r) 0x00 =
                (if ((replicate 64 0)[20 := 7] :: i16 list) ! 63 = 0 then 1 else 0)"
    by blast
  have tables:
    "fst (huffman annexK True) ! 0x00 = \<lparr>code = 0, numBits = 2\<rparr>"
    "snd (huffman annexK True) ! 0xF0 = \<lparr>code = 0x7F9, numBits = 11\<rparr>"
    "snd (huffman annexK True) ! 0x33 = \<lparr>code = 0xFF5, numBits = 12\<rparr>"
    "snd (huffman annexK True) ! 0x00 = \<lparr>code = 0xA, numBits = 4\<rparr>"
    by code_simp+
  have bytes:
    "sink (foldl put_bits new_BitWriter
       [\<lparr>code = 0, numBits = 2\<rparr>, \<lparr>code = 0x7F9, numBits = 11\<rparr>, \<lparr>code = 0xFF5, numBits = 12\<rparr>,
        \<lparr>code = 7, numBits = 3\<rparr>, \<lparr>code = 0xA, numBits = 4\<rparr>]) = [0x3F, 0xCF, 0xFA, 0xFA]"
    by code_simp
  have "sink (br_writer r) = [0x3F, 0xCF, 0xFA, 0xFA]"
    unfolding w example_codes tables by (rule bytes)
  moreover have "br_ac_symbols r = [0xF0, 0x33, 0x00]" using sy unfolding example_rle .
  moreover have "count_list (br_ac_symbols r) 0xF0 = 1" using zrl unfolding example_rle .
  moreover have "count_list (br_ac_symbols r) 0x00 = 1" using eob by simp
  ultimately show ?thesis using r example_quantize by simp
qed

text \<open>
  C10. Whenever the body of the AC loop of encode\_block runs (\<open>1 \<le> i \<le> posNonZero\<close>),
  \<open>posNonZero\<close> indexes a non-zero entry of \<open>quantized\<close>; the inner loop
  \<open>while (quantized[i] == 0)\<close> then returns, with \<open>i\<close> at most \<open>posNonZero\<close>,
  having read \<open>quantized\<close> at the indices from the old to the new \<open>i\<close> only; and the
  whole AC part never reads \<open>quantized\<close> outside \<open>[1, 63]\<close>: no run ends in the fault
  \<open>QuantizedOutOfBounds\<close>, and a run that returns has read inside \<open>[1, posNonZero]\<close>.
\<close>

theorem quantized_index_in_bounds:
  assumes "length quantized0 = 64"
    and "quantize fp block64 quantized0 = (quantized, posNonZero)"
  shows "posNonZero \<le> 63 \<and>
    (\<forall>s. 1 \<le> ac_i s \<and> ac_i s \<le> posNonZero \<and> ac_offset s = 0 \<longrightarrow>
       quantized ! posNonZero \<noteq> 0 \<and>
       (\<exists>s'. skip_zeros quantized huffmanAC s = Inr s' \<and>
          ac_i s \<le> ac_i s' \<and> ac_i s' \<le> posNonZero \<and> quantized ! ac_i s' \<noteq> 0 \<and>
          q_reads s' = q_reads s @ [ac_i s..<Suc (ac_i s')])) \<and>
    (case encode_ac quantized posNonZero huffmanAC writer of
       Inl e \<Rightarrow> e \<noteq> QuantizedOutOfBounds
     | Inr s' \<Rightarrow> set (q_reads s') \<subseteq> {1..posNonZero} \<and> set (q_reads s') \<subseteq> {1..63})"
proof -
  note q = quantize_props [OF assms]
  have p63: "posNonZero \<le> 63" using q(2) by simp
  have inner: "quantized ! posNonZero \<noteq> 0 \<and>
       (\<exists>s'. skip_zeros quantized huffmanAC s = Inr s' \<and>
          ac_i s \<le> ac_i s' \<and> ac_i s' \<le> posNonZero \<and> quantized ! ac_i s' \<noteq> 0 \<and>
          q_reads s' = q_reads s @ [ac_i s..<Suc (ac_i s')])"
    if s: "1 \<le> ac_i s" "ac_i s \<le> posNonZero" "ac_offset s = 0" for s
  proof -
    have nz: "quantized ! posNonZero \<noteq> 0" using q(3) s by auto
    have len: "posNonZero < length quantized" using q(1,2) by simp
    show ?thesis
      using skip_zeros_spec [OF s(2) len nz, of 0 huffmanAC] s(3) nz by auto
  qed
  have "case encode_ac quantized posNonZero huffmanAC writer of
           Inl e \<Rightarrow> e \<noteq> QuantizedOutOfBounds
         | Inr s' \<Rightarrow> set (q_reads s') \<subseteq> {1..posNonZero} \<and> 0 \<notin> set (cw_reads s')"
    by (rule encode_ac_reads) (use q in auto)
  then have outer: "case encode_ac quantized posNonZero huffmanAC writer of
       Inl e \<Rightarrow> e \<noteq> QuantizedOutOfBounds
     | Inr s' \<Rightarrow> set (q_reads s') \<subseteq> {1..posNonZero} \<and> set (q_reads s') \<subseteq> {1..63}"
    using p63 by (auto split: sum.splits)
  show ?thesis using p63 inner outer by blast
qed

theorem quantized_index_in_bounds_witness:
  "length (replicate 64 0 :: i16 list) = 64 \<and>
   quantize int_ops (map (dct_scale int_ops (replicate 64 1) ((replicate 64 0)[40 := 7])) [0..<64])
     (replicate 64 0) = ((replicate 64 0)[20 := 7], 20) \<and>
   ((replicate 64 0)[20 := 7] :: i16 list) ! 20 \<noteq> 0 \<and>
   (\<exists>s'. skip_zeros ((replicate 64 0)[20 := 7]) (snd (huffman annexK True))
            \<lparr>ac_i = 1, ac_offset = 0, ac_writer = new_BitWriter,
             q_reads = [], cw_reads = [], ac_symbols = []\<rparr> = Inr s' \<and>
         1 \<le> ac_i s' \<and> ac_i s' \<le> 20 \<and> q_reads s' = [1..<Suc (ac_i s')]) \<and>
   (case encode_ac ((replicate 64 0)[20 := 7]) 20 (snd (huffman annexK True)) new_BitWriter of
      Inl e \<Rightarrow> e \<noteq> QuantizedOutOfBounds
    | Inr s' \<Rightarrow> set (q_reads s') \<subseteq> {1..20} \<and> set (q_reads s') \<subseteq> {1..63})"
proof -
  have len: "length (replicate 64 0 :: i16 list) = 64" by simp
  note t = quantized_index_in_bounds [OF len example_quantize,
      of "snd (huffman annexK True)" new_BitWriter]
  have inner: "((replicate 64 0)[20 := 7] :: i16 list) ! 20 \<noteq> 0 \<and>
   (\<exists>s'. skip_zeros ((replicate 64 0)[20 := 7]) (snd (huffman annexK True))
            \<lparr>ac_i = 1, ac_offset = 0, ac_writer = new_BitWriter,
             q_reads = [], cw_reads = [], ac_symbols = []\<rparr> = Inr s' \<and>
         1 \<le> ac_i s' \<and> ac_i s' \<le> 20 \<and> q_reads s' = [1..<Suc (ac_i s')])"
    using t [THEN conjunct2, THEN conjunct1, rule_format,
        of "\<lparr>ac_i = 1, ac_offset = 0, ac_writer = new_BitWriter,
             q_reads = [], cw_reads = [], ac_symbols = []\<rparr>"]
    by (auto simp del: upt_Suc)
  show ?thesis
    using len example_quantize inner t [THEN conjunct2, THEN conjunct2] by blast
qed

text \<open>
  C7. For every \<open>v\<close> in \<open>[1, 2048)\<close> the codeword table holds at \<open>+v\<close> the code
  \<open>v\<close> with \<open>ceil(log2(v+1))\<close> bits, and at \<open>-v\<close> the code \<open>(2^bits - 1) - v\<close>
  with the same number of bits. The entry at 0 is never read: every value at which a
  run of encode\_block that returns has read \<open>codewords\<close> is non-zero.
\<close>

theorem codeword_table_contents:
  assumes "1 \<le> v" "v < 2048" "length quantized0 = 64"
  shows "codewords (int v) = Inr \<lparr>code = of_nat v, numBits = of_nat (ceillog2 (v + 1))\<rparr> \<and>
     codewords (- int v) =
       Inr \<lparr>code = of_nat (2 ^ ceillog2 (v + 1) - 1 - v), numBits = of_nat (ceillog2 (v + 1))\<rparr> \<and>
     (case encode_block luminance K fp writer block64 scaled lastDC quantized0 of
        Inl e \<Rightarrow> True
      | Inr r \<Rightarrow> 0 \<notin> set (br_cw_reads r))"
proof -
  have v: "1 \<le> v" "v < CodeWordLimit" using assms by (simp_all add: CodeWordLimit_def)
  have "case encode_block luminance K fp writer block64 scaled lastDC quantized0 of
        Inl e \<Rightarrow> True
      | Inr r \<Rightarrow> 0 \<notin> set (br_cw_reads r)"
  proof (cases "encode_block luminance K fp writer block64 scaled lastDC quantized0")
    case (Inl e)
    then show ?thesis by simp
  next
    case (Inr r)
    then show ?thesis using encode_block_Inr(1) [OF assms(3) Inr] by simp
  qed
  then show ?thesis using codewords_value [OF v] by simp
qed

theorem codeword_table_contents_witness:
  "codewords 5 = Inr \<lparr>code = 5, numBits = 3\<rparr> \<and>
   codewords (- 5) = Inr \<lparr>code = 2, numBits = 3\<rparr> \<and>
   (\<exists>r. encode_block True annexK int_ops new_BitWriter ((replicate 64 0)[40 := 7])
          (replicate 64 1) 0 (replicate 64 0) = Inr r \<and> 0 \<notin> set (br_cw_reads r))"
proof -
  have len: "length (replicate 64 0 :: i16 list) = 64" by simp
  obtain r where r: "encode_block True annexK int_ops new_BitWriter ((replicate 64 0)[40 := 7])
          (replicate 64 1) 0 (replicate 64 0) = Inr r"
    using encode_block_rle [OF len example_quantize example_quantized_range example_dc,
      of True annexK new_BitWriter] by blast
  have c: "ceillog2 6 = 3" by code_simp
  from codeword_table_contents [of 5 "replicate 64 0" True annexK int_ops new_BitWriter
      "(replicate 64 0)[40 := 7]" "replicate 64 1" 0]
  show ?thesis
    unfolding r by (simp add: c)
qed

section \<open>The block loops\<close>

lemma store_row_length [simp]: "length (store_row f dy n ys) = length ys"
  unfolding store_row_def by (induction n) simp_all

lemma store_row_Suc: "store_row f dy (Suc n) ys = (store_row f dy n ys)[dy * 8 + n := f n]"
  by (simp add: store_row_def)

lemma store_row_0 [simp]: "store_row f dy 0 ys = ys"
  by (simp add: store_row_def)

lemma store_row_nth:
  "i < length ys \<Longrightarrow>
   store_row f dy n ys ! i = (if dy * 8 \<le> i \<and> i < dy * 8 + n then f (i - dy * 8) else ys ! i)"
proof (induction n)
  case 0
  show ?case by auto
next
  case (Suc n)
  have "store_row f dy (Suc n) ys ! i =
          (if i = dy * 8 + n then f n else store_row f dy n ys ! i)"
    using Suc.prems by (simp add: store_row_Suc nth_list_update)
  also have "\<dots> = (if dy * 8 \<le> i \<and> i < dy * 8 + Suc n then f (i - dy * 8) else ys ! i)"
    using Suc.IH [OF Suc.prems] by (cases "i = dy * 8 + n") auto
  finally show ?case .
qed

lemma store_block_length [simp]: "length (store_block f rows ys) = length ys"
  unfolding store_block_def by (induction rows arbitrary: ys) simp_all

lemma store_block_nth:
  "i < length ys \<Longrightarrow>
   store_block f rows ys ! i = (if i div 8 \<in> set rows then f (i div 8) (i mod 8) else ys ! i)"
proof (induction rows arbitrary: ys)
  case Nil
  show ?case by (simp add: store_block_def)
next
  case (Cons r rows)
  have "store_block f (r # rows) ys = store_block f rows (store_row (f r) r 8 ys)"
    by (simp add: store_block_def)
  moreover have "store_row (f r) r 8 ys ! i = (if i div 8 = r then f r (i mod 8) else ys ! i)"
  proof -
    have "(r * 8 \<le> i \<and> i < r * 8 + 8) = (i div 8 = r)" by auto
    moreover have "i div 8 = r \<Longrightarrow> i - r * 8 = i mod 8"
      by (auto simp: algebra_simps minus_mult_div_eq_mod)
    ultimately show ?thesis using Cons.prems by (simp add: store_row_nth)
  qed
  ultimately show ?case using Cons by simp
qed

lemma store_block_all:
  assumes "length ys = 64" "{0..<8} \<subseteq> set rows"
  shows "store_block f rows ys = map (\<lambda>i. f (i div 8) (i mod 8)) [0..<64]"
proof (rule nth_equalityI)
  show "length (store_block f rows ys) = length (map (\<lambda>i. f (i div 8) (i mod 8)) [0..<64])"
    using assms(1) by simp
next
  fix i assume "i < length (store_block f rows ys)"
  then have i: "i < 64" using assms(1) by simp
  then have "i div 8 \<in> set rows" using assms(2) by auto
  then show "store_block f rows ys ! i = map (\<lambda>i. f (i div 8) (i mod 8)) [0..<64] ! i"
    using i assms(1) by (simp add: store_block_nth del: upt_Suc)
qed

lemma fill_pixel_eq:
  "fill_pixel E row dy dx (c, st) =
     (next_column E c,
      st\<lparr>s_Y := (s_Y st)[dy * 8 + dx := sample_Y E row c],
         s_Cb := (if e_isRGB E \<and> \<not> e_downsample E
                  then (s_Cb st)[dy * 8 + dx := sample_Cb E row c] else s_Cb st),
         s_Cr := (if e_isRGB E \<and> \<not> e_downsample E
                  then (s_Cr st)[dy * 8 + dx := sample_Cr E row c] else s_Cr st)\<rparr>)"
proof (cases "e_isRGB E")
  case False
  then show ?thesis
    by (simp add: fill_pixel_def next_column_def sample_Y_def Let_def)
next
  case rgb: True
  show ?thesis
  proof (cases "e_downsample E")
    case True
    then show ?thesis using rgb
      by (simp add: fill_pixel_def next_column_def sample_Y_def Let_def)
  next
    case False
    then show ?thesis using rgb
      by (simp add: fill_pixel_def next_column_def sample_Y_def sample_Cb_def sample_Cr_def Let_def)
  qed
qed

lemma fill_row:
  "fold (fill_pixel E row dy) [0..<n] (c, st) =
     ((next_column E ^^ n) c,
      st\<lparr>s_Y := store_row (\<lambda>dx. sample_Y E row ((next_column E ^^ dx) c)) dy n (s_Y st),
         s_Cb := (if e_isRGB E \<and> \<not> e_downsample E
                  then store_row (\<lambda>dx. sample_Cb E row ((next_column E ^^ dx) c)) dy n (s_Cb st)
                  else s_Cb st),
         s_Cr := (if e_isRGB E \<and> \<not> e_downsample E
                  then store_row (\<lambda>dx. sample_Cr E row ((next_column E ^^ dx) c)) dy n (s_Cr st)
                  else s_Cr st)\<rparr>)"
proof (induction n)
  case 0
  show ?case by simp
next
  case (Suc n)
  show ?case
    by (simp add: Suc fill_pixel_eq store_row_Suc)
qed


lemma next_column_iter:
  "c \<le> maxWidth E \<Longrightarrow> (next_column E ^^ n) c = min (c + int n) (maxWidth E)"
  by (induction n) (auto simp: next_column_def)

lemma store_block_Cons:
  "store_block f (r # rows) ys = store_block f rows (store_row (f r) r 8 ys)"
  by (simp add: store_block_def)

lemma store_block_Nil [simp]: "store_block f [] ys = ys"
  by (simp add: store_block_def)

lemma fill_rows:
  "fold (\<lambda>deltaY st.
             let column = min (mcuX + blockX) (maxWidth E);
                 row = min (mcuY + blockY + int deltaY) (maxHeight E)
             in snd (fold (fill_pixel E row deltaY) [0..<8] (column, st))) rows st =
   st\<lparr>s_Y := store_block (\<lambda>dy dx. sample_Y E (min (mcuY + blockY + int dy) (maxHeight E))
                                  (min (mcuX + blockX + int dx) (maxWidth E))) rows (s_Y st),
      s_Cb := (if e_isRGB E \<and> \<not> e_downsample E
               then store_block (\<lambda>dy dx. sample_Cb E (min (mcuY + blockY + int dy) (maxHeight E))
                                  (min (mcuX + blockX + int dx) (maxWidth E))) rows (s_Cb st)
               else s_Cb st),
      s_Cr := (if e_isRGB E \<and> \<not> e_downsample E
               then store_block (\<lambda>dy dx. sample_Cr E (min (mcuY + blockY + int dy) (maxHeight E))
                                  (min (mcuX + blockX + int dx) (maxWidth E))) rows (s_Cr st)
               else s_Cr st)\<rparr>"
proof -
  define step where "step = (\<lambda>deltaY (st :: 'a enc_state).
             let column = min (mcuX + blockX) (maxWidth E);
                 row = min (mcuY + blockY + int deltaY) (maxHeight E)
             in snd (fold (fill_pixel E row deltaY) [0..<8] (column, st)))"
  define FY where "FY = (\<lambda>dy dx. sample_Y E (min (mcuY + blockY + int dy) (maxHeight E))
                                  (min (mcuX + blockX + int dx) (maxWidth E)))"
  define FCb where "FCb = (\<lambda>dy dx. sample_Cb E (min (mcuY + blockY + int dy) (maxHeight E))
                                  (min (mcuX + blockX + int dx) (maxWidth E)))"
  define FCr where "FCr = (\<lambda>dy dx. sample_Cr E (min (mcuY + blockY + int dy) (maxHeight E))
                                  (min (mcuX + blockX + int dx) (maxWidth E)))"
  define chroma where "chroma = (e_isRGB E \<and> \<not> e_downsample E)"
  have col: "(next_column E ^^ dx) (min (mcuX + blockX) (maxWidth E)) =
               min (mcuX + blockX + int dx) (maxWidth E)" for dx
    by (subst next_column_iter) auto
  have step_eq: "step r st =
      st\<lparr>s_Y := store_row (FY r) r 8 (s_Y st),
         s_Cb := (if chroma then store_row (FCb r) r 8 (s_Cb st) else s_Cb st),
         s_Cr := (if chroma then store_row (FCr r) r 8 (s_Cr st) else s_Cr st)\<rparr>" for r st
    unfolding step_def FY_def FCb_def FCr_def chroma_def
    by (simp add: fill_row col Let_def)
  have "fold step rows st =
      st\<lparr>s_Y := store_block FY rows (s_Y st),
         s_Cb := (if chroma then store_block FCb rows (s_Cb st) else s_Cb st),
         s_Cr := (if chroma then store_block FCr rows (s_Cr st) else s_Cr st)\<rparr>" for st
  proof (induction rows arbitrary: st)
    case Nil
    show ?case by simp
  next
    case (Cons r rows)
    have "fold step (r # rows) st = fold step rows (step r st)" by simp
    also have "\<dots> = (step r st)\<lparr>s_Y := store_block FY rows (s_Y (step r st)),
         s_Cb := (if chroma then store_block FCb rows (s_Cb (step r st)) else s_Cb (step r st)),
         s_Cr := (if chroma then store_block FCr rows (s_Cr (step r st)) else s_Cr (step r st))\<rparr>"
      by (rule Cons)
    also have "\<dots> = st\<lparr>s_Y := store_block FY (r # rows) (s_Y st),
         s_Cb := (if chroma then store_block FCb (r # rows) (s_Cb st) else s_Cb st),
         s_Cr := (if chroma then store_block FCr (r # rows) (s_Cr st) else s_Cr st)\<rparr>"
      by (simp add: step_eq store_block_Cons)
    finally show ?case .
  qed
  then show ?thesis unfolding step_def FY_def FCb_def FCr_def chroma_def .
qed

lemma fill_block_eq:
  "fill_block E mcuX mcuY blockX blockY st =
   st\<lparr>s_Y := store_block (\<lambda>dy dx. sample_Y E (min (mcuY + blockY + int dy) (maxHeight E))
                                  (min (mcuX + blockX + int dx) (maxWidth E))) [0..<8] (s_Y st),
      s_Cb := (if e_isRGB E \<and> \<not> e_downsample E
               then store_block (\<lambda>dy dx. sample_Cb E (min (mcuY + blockY + int dy) (maxHeight E))
                                  (min (mcuX + blockX + int dx) (maxWidth E))) [0..<8] (s_Cb st)
               else s_Cb st),
      s_Cr := (if e_isRGB E \<and> \<not> e_downsample E
               then store_block (\<lambda>dy dx. sample_Cr E (min (mcuY + blockY + int dy) (maxHeight E))
                                  (min (mcuX + blockX + int dx) (maxWidth E))) [0..<8] (s_Cr st)
               else s_Cr st)\<rparr>"
  unfolding fill_block_def by (rule fill_rows)

lemma downsample_pixel_eq:
  "downsample_pixel E row rowStep dy dx (p, c, cs, st) =
     (case ds_next E row (p, c, cs) of
        (p', c', cs') \<Rightarrow>
          (p', c', cs',
           st\<lparr>s_Cb := (s_Cb st)[dy * 8 + dx := ds_Cb E rowStep (p, c, cs)],
              s_Cr := (s_Cr st)[dy * 8 + dx := ds_Cr E rowStep (p, c, cs)]\<rparr>))"
  by (simp add: downsample_pixel_def ds_next_def ds_Cb_def ds_Cr_def ds_rgb_def Let_def)

lemma downsample_row:
  "fold (downsample_pixel E row rowStep dy) [0..<n] (p, c, cs, st) =
     (case (ds_next E row ^^ n) (p, c, cs) of
        (p', c', cs') \<Rightarrow>
          (p', c', cs',
           st\<lparr>s_Cb := store_row (\<lambda>dx. ds_Cb E rowStep ((ds_next E row ^^ dx) (p, c, cs))) dy n (s_Cb st),
              s_Cr := store_row (\<lambda>dx. ds_Cr E rowStep ((ds_next E row ^^ dx) (p, c, cs))) dy n (s_Cr st)\<rparr>))"
proof (induction n)
  case 0
  show ?case by simp
next
  case (Suc n)
  obtain p1 c1 cs1 where a: "(ds_next E row ^^ n) (p, c, cs) = (p1, c1, cs1)"
    using prod_cases3 by blast
  obtain p2 c2 cs2 where b: "ds_next E row (p1, c1, cs1) = (p2, c2, cs2)"
    using prod_cases3 by blast
  show ?case
    by (simp add: Suc a b downsample_pixel_eq store_row_Suc)
qed

lemma downsample_rows:
  "fold (\<lambda>deltaY st.
             let row = min (mcuY + 2 * int deltaY) (maxHeight E);
                 column = mcuX;
                 pixelPos = pixel_pos row (e_width E) column * 3;
                 rowStep = (if row < maxHeight E then 3 * word_of_int (e_width E) else 0);
                 columnStep = (if column < maxWidth E then 3 else 0)
             in snd (snd (snd (fold (downsample_pixel E row rowStep deltaY) [0..<8]
                                  (pixelPos, column, columnStep, st))))) rows st =
   st\<lparr>s_Cb := store_block (\<lambda>dy dx.
                 let row = min (mcuY + 2 * int dy) (maxHeight E)
                 in ds_Cb E (if row < maxHeight E then 3 * word_of_int (e_width E) else 0)
                      ((ds_next E row ^^ dx)
                         (pixel_pos row (e_width E) mcuX * 3, mcuX,
                          if mcuX < maxWidth E then 3 else 0))) rows (s_Cb st),
      s_Cr := store_block (\<lambda>dy dx.
                 let row = min (mcuY + 2 * int dy) (maxHeight E)
                 in ds_Cr E (if row < maxHeight E then 3 * word_of_int (e_width E) else 0)
                      ((ds_next E row ^^ dx)
                         (pixel_pos row (e_width E) mcuX * 3, mcuX,
                          if mcuX < maxWidth E then 3 else 0))) rows (s_Cr st)\<rparr>"
proof -
  define step where "step = (\<lambda>deltaY (st :: 'a enc_state).
             let row = min (mcuY + 2 * int deltaY) (maxHeight E);
                 column = mcuX;
                 pixelPos = pixel_pos row (e_width E) column * 3;
                 rowStep = (if row < maxHeight E then 3 * word_of_int (e_width E) else 0);
                 columnStep = (if column < maxWidth E then 3 else 0)
             in snd (snd (snd (fold (downsample_pixel E row rowStep deltaY) [0..<8]
                                  (pixelPos, column, columnStep, st)))))"
  define FCb where "FCb = (\<lambda>dy dx.
                 let row = min (mcuY + 2 * int dy) (maxHeight E)
                 in ds_Cb E (if row < maxHeight E then 3 * word_of_int (e_width E) else 0)
                      ((ds_next E row ^^ dx)
                         (pixel_pos row (e_width E) mcuX * 3, mcuX,
                          if mcuX < maxWidth E then 3 else 0)))"
  define FCr where "FCr = (\<lambda>dy dx.
                 let row = min (mcuY + 2 * int dy) (maxHeight E)
                 in ds_Cr E (if row < maxHeight E then 3 * word_of_int (e_width E) else 0)
                      ((ds_next E row ^^ dx)
                         (pixel_pos row (e_width E) mcuX * 3, mcuX,
                          if mcuX < maxWidth E then 3 else 0)))"
  have step_eq: "step r st = st\<lparr>s_Cb := store_row (FCb r) r 8 (s_Cb st),
                                 s_Cr := store_row (FCr r) r 8 (s_Cr st)\<rparr>" for r st
    unfolding step_def FCb_def FCr_def
    by (simp add: downsample_row Let_def case_prod_beta)
  have "fold step rows st = st\<lparr>s_Cb := store_block FCb rows (s_Cb st),
                                  s_Cr := store_block FCr rows (s_Cr st)\<rparr>" for st
  proof (induction rows arbitrary: st)
    case Nil
    show ?case by simp
  next
    case (Cons r rows)
    have "fold step (r # rows) st = fold step rows (step r st)" by simp
    also have "\<dots> = (step r st)\<lparr>s_Cb := store_block FCb rows (s_Cb (step r st)),
                                  s_Cr := store_block FCr rows (s_Cr (step r st))\<rparr>"
      by (rule Cons)
    also have "\<dots> = st\<lparr>s_Cb := store_block FCb (r # rows) (s_Cb st),
                                  s_Cr := store_block FCr (r # rows) (s_Cr st)\<rparr>"
      by (simp add: step_eq store_block_Cons)
    finally show ?case .
  qed
  then show ?thesis unfolding step_def FCb_def FCr_def .
qed

lemma downsample_chroma_eq:
  "downsample_chroma E mcuX mcuY st =
   st\<lparr>s_Cb := store_block (\<lambda>dy dx.
                 let row = min (mcuY + 2 * int dy) (maxHeight E)
                 in ds_Cb E (if row < maxHeight E then 3 * word_of_int (e_width E) else 0)
                      ((ds_next E row ^^ dx)
                         (pixel_pos row (e_width E) mcuX * 3, mcuX,
                          if mcuX < maxWidth E then 3 else 0))) (rev [0..<8]) (s_Cb st),
      s_Cr := store_block (\<lambda>dy dx.
                 let row = min (mcuY + 2 * int dy) (maxHeight E)
                 in ds_Cr E (if row < maxHeight E then 3 * word_of_int (e_width E) else 0)
                      ((ds_next E row ^^ dx)
                         (pixel_pos row (e_width E) mcuX * 3, mcuX,
                          if mcuX < maxWidth E then 3 else 0))) (rev [0..<8]) (s_Cr st)\<rparr>"
  unfolding downsample_chroma_def by (rule downsample_rows)


subsection \<open>Border replication and the pixel position\<close>

lemma sint_i32_small: "- (2 ^ 31) \<le> x \<Longrightarrow> x < 2 ^ 31 \<Longrightarrow> sint (word_of_int x :: 32 word) = x"
  by (simp add: sint_sbintrunc' signed_take_bit_int_eq_self)

lemma sint_pixel_pos:
  assumes "0 \<le> row" "0 \<le> w" "0 \<le> column" "row * w + column < 2 ^ 31"
  shows "sint (pixel_pos row w column) = row * w + column"
proof -
  have p: "pixel_pos row w column = word_of_int (row * w + column)" by (simp add: pixel_pos_def)
  have "0 \<le> row * w + column" using assms(1-3) by simp
  then have "sint (word_of_int (row * w + column) :: 32 word) = row * w + column"
    using assms(4) by (intro sint_i32_small) simp_all
  then show ?thesis by (simp only: p)
qed

lemma sint_pixel_pos_rgb:
  assumes "0 \<le> row" "0 \<le> w" "0 \<le> column" "3 * (row * w + column) + 2 < 2 ^ 31"
  shows "sint (3 * pixel_pos row w column) = 3 * (row * w + column)"
    "sint (3 * pixel_pos row w column + 1) = 3 * (row * w + column) + 1"
    "sint (3 * pixel_pos row w column + 2) = 3 * (row * w + column) + 2"
proof -
  have p: "pixel_pos row w column = word_of_int (row * w + column)" by (simp add: pixel_pos_def)
  have n: "0 \<le> row * w + column" using assms(1-3) by simp
  have p0: "3 * pixel_pos row w column = word_of_int (3 * (row * w + column))" by (simp add: p)
  have "sint (word_of_int (3 * (row * w + column)) :: 32 word) = 3 * (row * w + column)"
    using n assms(4) by (intro sint_i32_small) simp_all
  then show "sint (3 * pixel_pos row w column) = 3 * (row * w + column)" by (simp only: p0)
  have p1: "3 * pixel_pos row w column + 1 = word_of_int (3 * (row * w + column) + 1)" by (simp add: p)
  have "sint (word_of_int (3 * (row * w + column) + 1) :: 32 word) = 3 * (row * w + column) + 1"
    using n assms(4) by (intro sint_i32_small) simp_all
  then show "sint (3 * pixel_pos row w column + 1) = 3 * (row * w + column) + 1" by (simp only: p1)
  have p2: "3 * pixel_pos row w column + 2 = word_of_int (3 * (row * w + column) + 2)" by (simp add: p)
  have "sint (word_of_int (3 * (row * w + column) + 2) :: 32 word) = 3 * (row * w + column) + 2"
    using n assms(4) by (intro sint_i32_small) simp_all
  then show "sint (3 * pixel_pos row w column + 2) = 3 * (row * w + column) + 2" by (simp only: p2)
qed

lemma fill_block_sample:
  assumes "dy < 8" "dx < 8"
  shows "length (s_Y st) = 64 \<Longrightarrow>
         s_Y (fill_block E mcuX mcuY blockX blockY st) ! (dy * 8 + dx) =
           sample_Y E (min (mcuY + blockY + int dy) (maxHeight E))
             (min (mcuX + blockX + int dx) (maxWidth E))"
    and "length (s_Cb st) = 64 \<Longrightarrow> e_isRGB E \<Longrightarrow> \<not> e_downsample E \<Longrightarrow>
         s_Cb (fill_block E mcuX mcuY blockX blockY st) ! (dy * 8 + dx) =
           sample_Cb E (min (mcuY + blockY + int dy) (maxHeight E))
             (min (mcuX + blockX + int dx) (maxWidth E))"
    and "length (s_Cr st) = 64 \<Longrightarrow> e_isRGB E \<Longrightarrow> \<not> e_downsample E \<Longrightarrow>
         s_Cr (fill_block E mcuX mcuY blockX blockY st) ! (dy * 8 + dx) =
           sample_Cr E (min (mcuY + blockY + int dy) (maxHeight E))
             (min (mcuX + blockX + int dx) (maxWidth E))"
proof -
  have i: "dy * 8 + dx < 64" "(dy * 8 + dx) div 8 = dy" "(dy * 8 + dx) mod 8 = dx"
    "dy \<in> set [0..<8]"
    using assms by simp_all
  show "length (s_Y st) = 64 \<Longrightarrow>
         s_Y (fill_block E mcuX mcuY blockX blockY st) ! (dy * 8 + dx) =
           sample_Y E (min (mcuY + blockY + int dy) (maxHeight E))
             (min (mcuX + blockX + int dx) (maxWidth E))"
    using i by (simp add: fill_block_eq store_block_nth del: upt_Suc set_upt)
  show "length (s_Cb st) = 64 \<Longrightarrow> e_isRGB E \<Longrightarrow> \<not> e_downsample E \<Longrightarrow>
         s_Cb (fill_block E mcuX mcuY blockX blockY st) ! (dy * 8 + dx) =
           sample_Cb E (min (mcuY + blockY + int dy) (maxHeight E))
             (min (mcuX + blockX + int dx) (maxWidth E))"
    using i by (simp add: fill_block_eq store_block_nth del: upt_Suc set_upt)
  show "length (s_Cr st) = 64 \<Longrightarrow> e_isRGB E \<Longrightarrow> \<not> e_downsample E \<Longrightarrow>
         s_Cr (fill_block E mcuX mcuY blockX blockY st) ! (dy * 8 + dx) =
           sample_Cr E (min (mcuY + blockY + int dy) (maxHeight E))
             (min (mcuX + blockX + int dx) (maxWidth E))"
    using i by (simp add: fill_block_eq store_block_nth del: upt_Suc set_upt)
qed

lemma border_offset_in_range:
  assumes "0 \<le> y" "0 \<le> x" "0 < W" "0 < H"
  shows "0 \<le> min y (H - 1)" "0 \<le> min x (W - 1)"
    "min y (H - 1) * W + min x (W - 1) < W * (H :: int)"
proof -
  show "0 \<le> min y (H - 1)" "0 \<le> min x (W - 1)" using assms by simp_all
  have "min y (H - 1) * W \<le> (H - 1) * W" using assms(3) by (intro mult_right_mono) simp_all
  moreover have "min x (W - 1) \<le> W - 1" by simp
  ultimately have "min y (H - 1) * W + min x (W - 1) \<le> (H - 1) * W + (W - 1)" by linarith
  also have "\<dots> = W * H - 1" by (simp add: algebra_simps)
  finally show "min y (H - 1) * W + min x (W - 1) < W * H" by simp
qed

lemma border_replication_gray:
  assumes "dy < 8" "dx < 8" "length (s_Y st) = 64" "\<not> e_isRGB E"
    and "0 \<le> mcuY + blockY" "0 \<le> mcuX + blockX" "0 < e_width E" "0 < e_height E"
    and "e_width E * e_height E \<le> 2 ^ 31"
  shows "s_Y (fill_block E mcuX mcuY blockX blockY st) ! (dy * 8 + dx) =
           sub128 (e_fp E) (flt (e_fp E) (uint (e_pixels E
             (min (mcuY + blockY + int dy) (e_height E - 1) * e_width E +
              min (mcuX + blockX + int dx) (e_width E - 1)))))"
proof -
  note b = border_offset_in_range [of "mcuY + blockY + int dy" "mcuX + blockX + int dx"
      "e_width E" "e_height E"]
  have y: "0 \<le> mcuY + blockY + int dy" and x: "0 \<le> mcuX + blockX + int dx"
    using assms(5,6) by simp_all
  have "sint (pixel_pos (min (mcuY + blockY + int dy) (e_height E - 1)) (e_width E)
               (min (mcuX + blockX + int dx) (e_width E - 1))) =
        min (mcuY + blockY + int dy) (e_height E - 1) * e_width E +
        min (mcuX + blockX + int dx) (e_width E - 1)"
    using b(1,2) [OF y x assms(7,8)] b(3) [OF y x assms(7,8)] assms(7,9)
    by (intro sint_pixel_pos) simp_all
  then show ?thesis
    using fill_block_sample(1) [OF assms(1,2,3), of E mcuX mcuY blockX blockY] assms(4)
    by (simp add: sample_Y_def maxWidth_def maxHeight_def Let_def)
qed

lemma border_replication_rgb:
  assumes "dy < 8" "dx < 8" "length (s_Y st) = 64" "length (s_Cb st) = 64" "length (s_Cr st) = 64"
    and "e_isRGB E" "\<not> e_downsample E"
    and "0 \<le> mcuY + blockY" "0 \<le> mcuX + blockX" "0 < e_width E" "0 < e_height E"
    and "3 * (e_width E * e_height E) \<le> 2 ^ 31"
    and "p = min (mcuY + blockY + int dy) (e_height E - 1) * e_width E +
             min (mcuX + blockX + int dx) (e_width E - 1)"
    and "r = flt (e_fp E) (uint (e_pixels E (3 * p)))"
    and "g = flt (e_fp E) (uint (e_pixels E (3 * p + 1)))"
    and "b = flt (e_fp E) (uint (e_pixels E (3 * p + 2)))"
  shows "s_Y (fill_block E mcuX mcuY blockX blockY st) ! (dy * 8 + dx) =
           sub128 (e_fp E) (rgb2y (e_fp E) r g b)"
    and "s_Cb (fill_block E mcuX mcuY blockX blockY st) ! (dy * 8 + dx) = rgb2cb (e_fp E) r g b"
    and "s_Cr (fill_block E mcuX mcuY blockX blockY st) ! (dy * 8 + dx) = rgb2cr (e_fp E) r g b"
proof -
  note bo = border_offset_in_range [of "mcuY + blockY + int dy" "mcuX + blockX + int dx"
      "e_width E" "e_height E"]
  have y: "0 \<le> mcuY + blockY + int dy" and x: "0 \<le> mcuX + blockX + int dx"
    using assms(8,9) by simp_all
  have lt: "3 * p + 2 < 2 ^ 31" using bo(3) [OF y x assms(10,11)] assms(12,13) by simp
  note sp = sint_pixel_pos_rgb [OF bo(1) [OF y x assms(10,11)] _ bo(2) [OF y x assms(10,11)],
      of "e_width E", folded assms(13), OF _ lt]
  have w: "0 \<le> e_width E" using assms(10) by simp
  show "s_Y (fill_block E mcuX mcuY blockX blockY st) ! (dy * 8 + dx) =
           sub128 (e_fp E) (rgb2y (e_fp E) r g b)"
    using fill_block_sample(1) [OF assms(1,2,3), of E mcuX mcuY blockX blockY] assms(6)
      sp [OF w]
    by (simp add: sample_Y_def maxWidth_def maxHeight_def Let_def assms(14,15,16))
  show "s_Cb (fill_block E mcuX mcuY blockX blockY st) ! (dy * 8 + dx) = rgb2cb (e_fp E) r g b"
    using fill_block_sample(2) [OF assms(1,2,4,6,7), of mcuX mcuY blockX blockY] sp [OF w]
    by (simp add: sample_Cb_def maxWidth_def maxHeight_def Let_def assms(14,15,16))
  show "s_Cr (fill_block E mcuX mcuY blockX blockY st) ! (dy * 8 + dx) = rgb2cr (e_fp E) r g b"
    using fill_block_sample(3) [OF assms(1,2,5,6,7), of mcuX mcuY blockX blockY] sp [OF w]
    by (simp add: sample_Cr_def maxWidth_def maxHeight_def Let_def assms(14,15,16))
qed

lemma huge_gray_fields:
  "e_width huge_gray = 65535" "e_height huge_gray = 32770" "\<not> e_isRGB huge_gray"
  "e_fp huge_gray = int_ops" "e_pixels huge_gray = bright_image"
  by (simp_all add: huge_gray_def scan_env_of_def)

lemma huge_gray_pos: "sint (pixel_pos 32769 65535 0) = - 2147450881"
  by (simp add: pixel_pos_def)

text \<open>
  C6. The row and the column of the pixel behind \<open>Y[deltaY][deltaX]\<close> are
  \<open>min(mcuY + blockY + deltaY, height - 1)\<close> and \<open>min(mcuX + blockX + deltaX, width - 1)\<close>,
  and as long as the offset \<open>row * width + column\<close> (three times that, plus 2, for RGB)
  fits an \<open>int\<close> the sample is computed from that pixel (lemmas
  \<open>border_replication_gray\<close> and \<open>border_replication_rgb\<close>). It does not for every
  image: in a grayscale image of 65535 x 32770 pixels, the block at \<open>mcuY = 32768\<close>,
  \<open>mcuX = 0\<close> has at \<open>(deltaY, deltaX) = (1, 0)\<close> the row 32769 and the column 0; the
  pixel is at offset 2147516415, but \<open>row * int(width) + column\<close> leaves the range of
  \<open>int\<close>, wraps to -2147450881, and the sample is computed from the byte that lies there,
  in front of the buffer.
\<close>

theorem pixel_position_overflows:
  "min (32768 + 0 + int 1) (e_height huge_gray - 1) = 32769 \<and>
   min (0 + 0 + int 0) (e_width huge_gray - 1) = 0 \<and>
   32769 * e_width huge_gray + 0 = 2147516415 \<and>
   sub128 int_ops (flt int_ops (uint (e_pixels huge_gray 2147516415))) = 127 \<and>
   s_Y (fill_block huge_gray 0 32768 0 0
          \<lparr>s_writer = new_BitWriter, s_lastYDC = 0, s_lastCbDC = 0, s_lastCrDC = 0,
           s_Y = replicate 64 0, s_Cb = replicate 64 0, s_Cr = replicate 64 0\<rparr>) ! (1 * 8 + 0)
     = sub128 int_ops (flt int_ops (uint (e_pixels huge_gray (- 2147450881)))) \<and>
   sub128 int_ops (flt int_ops (uint (e_pixels huge_gray (- 2147450881)))) = - 128"
proof -
  have "s_Y (fill_block huge_gray 0 32768 0 0
          \<lparr>s_writer = new_BitWriter, s_lastYDC = 0, s_lastCbDC = 0, s_lastCrDC = 0,
           s_Y = replicate 64 0, s_Cb = replicate 64 0, s_Cr = replicate 64 0\<rparr>) ! (1 * 8 + 0)
     = sample_Y huge_gray (min (32768 + 0 + int 1) (maxHeight huge_gray))
             (min (0 + 0 + int 0) (maxWidth huge_gray))"
    by (rule fill_block_sample(1)) simp_all
  also have "\<dots> = sub128 int_ops (flt int_ops (uint (e_pixels huge_gray (- 2147450881))))"
    by (simp add: sample_Y_def maxWidth_def maxHeight_def huge_gray_fields huge_gray_pos Let_def)
  finally show ?thesis
    by (simp add: huge_gray_fields bright_image_def int_ops_def)
qed


section \<open>The MCU loops\<close>

subsection \<open>The entropy-coded bytes are stuffed\<close>

lemma fold_fault_invariant:
  assumes "\<And>x s s'. P s \<Longrightarrow> f x s = Inr s' \<Longrightarrow> P s'"
    and "P s" "fold_fault f xs s = Inr s'"
  shows "P s'"
  using assms(2,3)
proof (induction xs arbitrary: s)
  case Nil
  then show ?case by simp
next
  case (Cons x xs)
  then obtain s1 where "f x s = Inr s1" "fold_fault f xs s1 = Inr s'"
    by (auto split: sum.splits)
  then show ?case using Cons.IH [of s1] assms(1) [of s x s1] Cons.prems(1) by blast
qed

lemma mcu_x_loop_invariant:
  assumes "\<And>x s s'. P s \<Longrightarrow> encode_mcu E x mcuY s = Inr s' \<Longrightarrow> P s'"
    and "P st" "mcu_x_loop E mcuY mcuX st = Inr st'"
  shows "P st'"
  using assms
proof (induction E mcuY mcuX st rule: mcu_x_loop.induct)
  case (1 E mcuY mcuX st)
  show ?case
  proof (cases "mcuX < e_width E")
    case False
    then show ?thesis using "1.prems"(2,3) by (subst (asm) mcu_x_loop.simps) simp
  next
    case True
    then obtain s1 where s1: "encode_mcu E mcuX mcuY st = Inr s1"
      "mcu_x_loop E mcuY (mcuX + mcuSize E) s1 = Inr st'"
      using "1.prems"(3) by (subst (asm) mcu_x_loop.simps) (auto split: sum.splits)
    have p1: "P s1" using "1.prems"(1) [OF "1.prems"(2) s1(1)] .
    show ?thesis
    proof (rule "1.IH" [OF True s1(1)])
      show "P s1" by (rule p1)
      show "mcu_x_loop E mcuY (mcuX + mcuSize E) s1 = Inr st'" by (rule s1(2))
      fix s x s' assume "P s" "encode_mcu E x mcuY s = Inr s'"
      then show "P s'" by (rule "1.prems"(1))
    qed
  qed
qed

lemma mcu_y_loop_invariant:
  assumes "\<And>x y s s'. P s \<Longrightarrow> encode_mcu E x y s = Inr s' \<Longrightarrow> P s'"
    and "P st" "mcu_y_loop E mcuY st = Inr st'"
  shows "P st'"
  using assms
proof (induction E mcuY st rule: mcu_y_loop.induct)
  case (1 E mcuY st)
  show ?case
  proof (cases "mcuY < e_height E")
    case False
    then show ?thesis using "1.prems"(2,3) by (subst (asm) mcu_y_loop.simps) simp
  next
    case True
    then obtain s1 where s1: "mcu_x_loop E mcuY 0 st = Inr s1"
      "mcu_y_loop E (mcuY + mcuSize E) s1 = Inr st'"
      using "1.prems"(3) by (subst (asm) mcu_y_loop.simps) (auto split: sum.splits)
    have p1: "P s1"
    proof (rule mcu_x_loop_invariant [where P = P, OF _ "1.prems"(2) s1(1)])
      fix x s s' assume "P s" "encode_mcu E x mcuY s = Inr s'"
      then show "P s'" by (rule "1.prems"(1))
    qed
    show ?thesis
    proof (rule "1.IH" [OF True s1(1)])
      show "P s1" by (rule p1)
      show "mcu_y_loop E (mcuY + mcuSize E) s1 = Inr st'" by (rule s1(2))
      fix s x y s' assume "P s" "encode_mcu E x y s = Inr s'"
      then show "P s'" by (rule "1.prems"(1))
    qed
  qed
qed

lemma encode_block_stuffed:
  assumes "encode_block luminance K fp w block64 scaled lastDC quantized0 = Inr r"
  shows "appends_stuffed w (br_writer r)"
proof -
  obtain quantized posNonZero where
    q: "quantize fp (map (dct_scale fp scaled block64) [0..<64]) quantized0 = (quantized, posNonZero)"
    by (cases "quantize fp (map (dct_scale fp scaled block64) [0..<64]) quantized0")
  from assms obtain w1 dc_reads s where
    dc: "encode_dc (fst (huffman K luminance)) w
             (round_int fp (dct_scale fp scaled block64 0) - sint lastDC) = Inr (w1, dc_reads)"
    and ac: "encode_ac quantized posNonZero (snd (huffman K luminance)) w1 = Inr s"
    and r: "br_writer r = ac_writer s"
    unfolding encode_block_cases [OF q] by (auto split: sum.splits prod.splits)
  show ?thesis
    using encode_dc_Inr(2) [OF dc] encode_ac_stuffed [OF ac] appends_stuffed_trans r by auto
qed

lemma encode_Y_stuffed:
  "encode_Y E st = Inr st' \<Longrightarrow> appends_stuffed (s_writer st) (s_writer st')"
  by (auto simp: encode_Y_def split: sum.splits dest: encode_block_stuffed)

lemma encode_Cb_stuffed:
  "encode_Cb E st = Inr st' \<Longrightarrow> appends_stuffed (s_writer st) (s_writer st')"
  by (auto simp: encode_Cb_def split: sum.splits dest: encode_block_stuffed)

lemma encode_Cr_stuffed:
  "encode_Cr E st = Inr st' \<Longrightarrow> appends_stuffed (s_writer st) (s_writer st')"
  by (auto simp: encode_Cr_def split: sum.splits dest: encode_block_stuffed)

lemma fill_block_writer [simp]: "s_writer (fill_block E mcuX mcuY blockX blockY st) = s_writer st"
  by (simp add: fill_block_eq)

lemma downsample_chroma_writer [simp]: "s_writer (downsample_chroma E mcuX mcuY st) = s_writer st"
  by (simp add: downsample_chroma_eq)

lemma encode_mcu_stuffed:
  assumes "appends_stuffed w0 (s_writer st)" "encode_mcu E mcuX mcuY st = Inr st'"
  shows "appends_stuffed w0 (s_writer st')"
proof -
  let ?P = "\<lambda>s. appends_stuffed w0 (s_writer s)"
  from assms(2) obtain st1 where
    ys: "fold_fault (\<lambda>(blockY, blockX) st. encode_Y E (fill_block E mcuX mcuY blockX blockY st))
             (block_offsets E) st = Inr st1"
    and rest: "(if \<not> e_isRGB E then Inr st1
          else
            (let st2 = (if e_downsample E then downsample_chroma E mcuX mcuY st1 else st1)
             in case encode_Cb E st2 of
                  Inl e \<Rightarrow> Inl e
                | Inr st3 \<Rightarrow> encode_Cr E st3)) = Inr st'"
    unfolding encode_mcu_def by (auto split: sum.splits)
  have step: "?P s \<Longrightarrow>
      (case x of (blockY, blockX) \<Rightarrow> \<lambda>st. encode_Y E (fill_block E mcuX mcuY blockX blockY st)) s = Inr s'
      \<Longrightarrow> ?P s'" for x s s'
    using encode_Y_stuffed [of E "fill_block E mcuX mcuY (snd x) (fst x) s" s'] appends_stuffed_trans
    by (cases x) auto
  have p1: "?P st1"
    using fold_fault_invariant [where P = ?P, OF step assms(1) ys] .
  show ?thesis
  proof (cases "e_isRGB E")
    case False
    then show ?thesis using rest p1 by simp
  next
    case True
    define st2 where "st2 = (if e_downsample E then downsample_chroma E mcuX mcuY st1 else st1)"
    from rest True obtain st3 where cb: "encode_Cb E st2 = Inr st3" and cr: "encode_Cr E st3 = Inr st'"
      by (auto simp: st2_def Let_def split: sum.splits)
    have "?P st2" using p1 by (simp add: st2_def)
    then have "?P st3" using encode_Cb_stuffed [OF cb] appends_stuffed_trans by blast
    then show ?thesis using encode_Cr_stuffed [OF cr] appends_stuffed_trans by blast
  qed
qed

lemma writeJpegIntern_stuffed:
  assumes "writeJpegIntern K fp u bitWriter pixels width height downsample isRGB
       quantLuminance quantChrominance scaled_lum scaled_chrom comment = Inr (ok, w')"
  shows "ok \<and> (\<exists>entropy. sink w' =
             sink (write_headers K bitWriter width height downsample isRGB
                     quantLuminance quantChrominance comment) @ entropy @ [0xFF, 0xD9] \<and>
           stuffed entropy)"
proof -
  define w where "w = write_headers K bitWriter width height downsample isRGB
                quantLuminance quantChrominance comment"
  define E where "E = scan_env_of K fp u pixels width height downsample isRGB scaled_lum scaled_chrom"
  define st0 where "st0 = \<lparr>s_writer = w, s_lastYDC = 0, s_lastCbDC = 0, s_lastCrDC = 0,
                 s_Y = u_Y u, s_Cb = u_Cb u, s_Cr = u_Cr u\<rparr>"
  from assms obtain st where st: "mcu_y_loop E 0 st0 = Inr st"
    and res: "ok" "w' = put_byte (put_byte (flush (s_writer st)) 0xFF) 0xD9"
    unfolding writeJpegIntern_def Let_def w_def [symmetric] E_def [symmetric] st0_def [symmetric]
    by (auto split: sum.splits)
  have "appends_stuffed w (s_writer st0)" by (simp add: st0_def appends_stuffed_refl)
  then have "appends_stuffed w (s_writer st)"
    using mcu_y_loop_invariant [where P = "\<lambda>s. appends_stuffed w (s_writer s)", OF _ _ st]
      encode_mcu_stuffed by blast
  then have "appends_stuffed w (flush (s_writer st))"
    unfolding flush_def by (rule appends_stuffed_put_bits_trans)
  then obtain entropy where "sink (flush (s_writer st)) = sink w @ entropy" "stuffed entropy"
    unfolding appends_stuffed_def by blast
  then show ?thesis using res by (auto simp: put_byte_def w_def)
qed

subsection \<open>The loops return\<close>

lemma ZigZagInv_range: "j < 64 \<Longrightarrow> ZigZagInv ! j < 64"
proof -
  have "list_all (\<lambda>x. x < 64) ZigZagInv" by (simp add: ZigZagInv_def)
  moreover have "length ZigZagInv = 64" by (simp add: ZigZagInv_def)
  ultimately show "j < 64 \<Longrightarrow> ZigZagInv ! j < 64" by (simp add: list_all_length)
qed

lemma sint_i16_small: "- 32768 \<le> x \<Longrightarrow> x < 32768 \<Longrightarrow> sint (word_of_int x :: i16) = x"
  by (simp add: sint_sbintrunc' signed_take_bit_int_eq_self)

lemma encode_block_total:
  assumes "coefficients_in_range fp scaled block64" "length quantized0 = 64"
    and "- 1024 \<le> sint lastDC" "sint lastDC \<le> 1023"
  shows "\<exists>r. encode_block luminance K fp writer block64 scaled lastDC quantized0 = Inr r \<and>
           - 1024 \<le> sint (br_DC r) \<and> sint (br_DC r) \<le> 1023 \<and> length (br_block r) = 64"
proof -
  let ?b = "map (dct_scale fp scaled block64) [0..<64]"
  have dcr: "- 1024 \<le> round_int fp (dct_scale fp scaled block64 0)"
    "round_int fp (dct_scale fp scaled block64 0) \<le> 1023"
    using assms(1) by (simp_all add: coefficients_in_range_def)
  have acr: "\<bar>round_int fp (dct_scale fp scaled block64 k)\<bar> < 2048" if "1 \<le> k" "k < 64" for k
    using assms(1) that by (simp add: coefficients_in_range_def)
  obtain quantized posNonZero where q: "quantize fp ?b quantized0 = (quantized, posNonZero)"
    by (cases "quantize fp ?b quantized0")
  have zz1: "1 \<le> ZigZagInv ! j" if "1 \<le> j" "j < 64" for j
  proof -
    have "list_all (\<lambda>x. 1 \<le> x) (drop 1 ZigZagInv)" by (simp add: ZigZagInv_def)
    moreover have "length ZigZagInv = 64" by (simp add: ZigZagInv_def)
    ultimately have "\<forall>n<63. 1 \<le> drop 1 ZigZagInv ! n" by (simp add: list_all_length)
    then have "1 \<le> drop 1 ZigZagInv ! (j - 1)" using that by simp
    then show ?thesis using that \<open>length ZigZagInv = 64\<close> by (cases j) simp_all
  qed
  have ac: "\<forall>j. 1 \<le> j \<and> j < 64 \<longrightarrow> \<bar>sint (quantized ! j)\<bar> < 2048"
  proof (intro allI impI)
    fix j :: nat assume j: "1 \<le> j \<and> j < 64"
    then have "quantized ! j = word_of_int (round_int fp (?b ! (ZigZagInv ! j)))"
      using quantize_props(5) [OF assms(2) q] by simp
    moreover have "?b ! (ZigZagInv ! j) = dct_scale fp scaled block64 (ZigZagInv ! j)"
      using ZigZagInv_range [of j] j by simp
    moreover have "\<bar>round_int fp (dct_scale fp scaled block64 (ZigZagInv ! j))\<bar> < 2048"
      using acr [OF zz1 ZigZagInv_range] j by simp
    ultimately show "\<bar>sint (quantized ! j)\<bar> < 2048"
      by (simp add: sint_i16_small)
  qed
  have dc: "\<bar>round_int fp (dct_scale fp scaled block64 0) - sint lastDC\<bar> < 2048"
    using dcr assms(3,4) by simp
  obtain r where r: "encode_block luminance K fp writer block64 scaled lastDC quantized0 = Inr r"
    using encode_block_rle [OF assms(2) q ac dc] by blast
  have "br_DC r = word_of_int (round_int fp (dct_scale fp scaled block64 0))"
    using encode_block_Inr(4) [OF assms(2) r] .
  then have "- 1024 \<le> sint (br_DC r) \<and> sint (br_DC r) \<le> 1023"
    using dcr by (simp add: sint_i16_small)
  moreover have "length (br_block r) = 64" using encode_block_Inr(5) [OF assms(2) r] by simp
  ultimately show ?thesis using r by blast
qed

lemma byte_range: "0 \<le> uint (p :: u8) \<and> uint p \<le> 255"
  using uint_lt2p [of p] by simp

lemma sample_Y_luminance: "luminance_sample (e_fp E) (sample_Y E row column)"
proof (cases "e_isRGB E")
  case False
  then show ?thesis
    unfolding luminance_sample_def sample_Y_def Let_def
    by (intro disjI1 exI [of _ "uint (e_pixels E (sint (pixel_pos row (e_width E) column)))"])
       (simp add: byte_range)
next
  case True
  then show ?thesis
    unfolding luminance_sample_def sample_Y_def Let_def
    by (intro disjI2 exI [of _ "uint (e_pixels E (sint (3 * pixel_pos row (e_width E) column)))"]
          exI [of _ "uint (e_pixels E (sint (3 * pixel_pos row (e_width E) column + 1)))"]
          exI [of _ "uint (e_pixels E (sint (3 * pixel_pos row (e_width E) column + 2)))"])
       (simp add: byte_range)
qed

lemma sample_Cb_chrominance: "chrominance_sample (e_fp E) (sample_Cb E row column)"
  unfolding chrominance_sample_def sample_Cb_def Let_def
  by (intro disjI1 exI [of _ "uint (e_pixels E (sint (3 * pixel_pos row (e_width E) column)))"]
        exI [of _ "uint (e_pixels E (sint (3 * pixel_pos row (e_width E) column + 1)))"]
        exI [of _ "uint (e_pixels E (sint (3 * pixel_pos row (e_width E) column + 2)))"])
     (simp add: byte_range)

lemma sample_Cr_chrominance: "chrominance_sample (e_fp E) (sample_Cr E row column)"
  unfolding chrominance_sample_def sample_Cr_def Let_def
  by (intro disjI1 exI [of _ "uint (e_pixels E (sint (3 * pixel_pos row (e_width E) column)))"]
        exI [of _ "uint (e_pixels E (sint (3 * pixel_pos row (e_width E) column + 1)))"]
        exI [of _ "uint (e_pixels E (sint (3 * pixel_pos row (e_width E) column + 2)))"])
     (simp add: byte_range)

lemma four_bytes_range:
  "0 \<le> uint (a :: u8) + uint (b :: u8) + uint (c :: u8) + uint (d :: u8) \<and>
   uint a + uint b + uint c + uint d \<le> 1020"
  using byte_range [of a] byte_range [of b] byte_range [of c] byte_range [of d] by simp

lemma ds_chrominance:
  "chrominance_sample (e_fp E) (ds_Cb E rowStep a)"
  "chrominance_sample (e_fp E) (ds_Cr E rowStep a)"
proof -
  obtain pixelPos column columnStep where a: "a = (pixelPos, column, columnStep)"
    by (cases a)
  define px where "px = (\<lambda>p :: 32 word. e_pixels E (sint p))"
  define r where "r = uint (px pixelPos) + uint (px (pixelPos + columnStep)) +
      uint (px (pixelPos + rowStep)) + uint (px (pixelPos + columnStep + rowStep))"
  define g where "g = uint (px (pixelPos + 1)) + uint (px (pixelPos + columnStep + 1)) +
      uint (px (pixelPos + rowStep + 1)) + uint (px (pixelPos + columnStep + rowStep + 1))"
  define b where "b = uint (px (pixelPos + 2)) + uint (px (pixelPos + columnStep + 2)) +
      uint (px (pixelPos + rowStep + 2)) + uint (px (pixelPos + columnStep + rowStep + 2))"
  have rng: "0 \<le> r \<and> r \<le> 1020" "0 \<le> g \<and> g \<le> 1020" "0 \<le> b \<and> b \<le> 1020"
    unfolding r_def g_def b_def by (rule four_bytes_range)+
  have cb: "ds_Cb E rowStep a =
      div4 (e_fp E) (rgb2cb (e_fp E) (flt (e_fp E) r) (flt (e_fp E) g) (flt (e_fp E) b))"
    by (simp add: ds_Cb_def ds_rgb_def a Let_def r_def g_def b_def px_def)
  have cr: "ds_Cr E rowStep a =
      div4 (e_fp E) (rgb2cr (e_fp E) (flt (e_fp E) r) (flt (e_fp E) g) (flt (e_fp E) b))"
    by (simp add: ds_Cr_def ds_rgb_def a Let_def r_def g_def b_def px_def)
  show "chrominance_sample (e_fp E) (ds_Cb E rowStep a)"
    unfolding chrominance_sample_def cb
    by (intro disjI2 exI [of _ r] exI [of _ g] exI [of _ b]) (simp add: rng)
  show "chrominance_sample (e_fp E) (ds_Cr E rowStep a)"
    unfolding chrominance_sample_def cr
    by (intro disjI2 exI [of _ r] exI [of _ g] exI [of _ b]) (simp add: rng)
qed

lemma list_all_map_all: "(\<And>i. P (f i)) \<Longrightarrow> list_all P (map f xs)"
  by (simp add: list_all_iff)

lemma block_rows: "{0..<8} \<subseteq> set [0..<8]" "{0..<8} \<subseteq> set (rev [0..<8])"
  by (simp_all del: upt_Suc)

lemma store_block_list_all:
  assumes "length ys = 64" "{0..<8} \<subseteq> set rows" "\<And>dy dx. P (f dy dx)"
  shows "list_all P (store_block f rows ys)"
  unfolding store_block_all [OF assms(1,2)] using assms(3) by (simp add: list_all_iff)

lemma fill_block_samples:
  assumes "dc_in_range st"
  shows "dc_in_range (fill_block E mcuX mcuY blockX blockY st)"
    and "list_all (luminance_sample (e_fp E)) (s_Y (fill_block E mcuX mcuY blockX blockY st))"
    and "e_isRGB E \<Longrightarrow> \<not> e_downsample E \<Longrightarrow>
         list_all (chrominance_sample (e_fp E)) (s_Cb (fill_block E mcuX mcuY blockX blockY st)) \<and>
         list_all (chrominance_sample (e_fp E)) (s_Cr (fill_block E mcuX mcuY blockX blockY st))"
proof -
  have l: "length (s_Y st) = 64" "length (s_Cb st) = 64" "length (s_Cr st) = 64"
    using assms by (simp_all add: dc_in_range_def)
  show "dc_in_range (fill_block E mcuX mcuY blockX blockY st)"
    using assms by (simp add: fill_block_eq dc_in_range_def)
  show "list_all (luminance_sample (e_fp E)) (s_Y (fill_block E mcuX mcuY blockX blockY st))"
    by (simp add: fill_block_eq store_block_all [OF l(1) block_rows(1)] del: upt_Suc)
       (rule list_all_map_all, rule sample_Y_luminance)
  show "e_isRGB E \<Longrightarrow> \<not> e_downsample E \<Longrightarrow>
         list_all (chrominance_sample (e_fp E)) (s_Cb (fill_block E mcuX mcuY blockX blockY st)) \<and>
         list_all (chrominance_sample (e_fp E)) (s_Cr (fill_block E mcuX mcuY blockX blockY st))"
    by (simp add: fill_block_eq store_block_all [OF l(2) block_rows(1)]
          store_block_all [OF l(3) block_rows(1)] del: upt_Suc)
       (intro conjI list_all_map_all sample_Cb_chrominance sample_Cr_chrominance)
qed

lemma downsample_chroma_samples:
  assumes "dc_in_range st"
  shows "dc_in_range (downsample_chroma E mcuX mcuY st)"
    and "list_all (chrominance_sample (e_fp E)) (s_Cb (downsample_chroma E mcuX mcuY st))"
    and "list_all (chrominance_sample (e_fp E)) (s_Cr (downsample_chroma E mcuX mcuY st))"
proof -
  have l: "length (s_Cb st) = 64" "length (s_Cr st) = 64"
    using assms by (simp_all add: dc_in_range_def)
  show "dc_in_range (downsample_chroma E mcuX mcuY st)"
    using assms by (simp add: downsample_chroma_eq dc_in_range_def)
  define FCb where "FCb = (\<lambda>dy dx.
                 let row = min (mcuY + 2 * int dy) (maxHeight E)
                 in ds_Cb E (if row < maxHeight E then 3 * word_of_int (e_width E) else 0)
                      ((ds_next E row ^^ dx)
                         (pixel_pos row (e_width E) mcuX * 3, mcuX,
                          if mcuX < maxWidth E then 3 else 0)))"
  define FCr where "FCr = (\<lambda>dy dx.
                 let row = min (mcuY + 2 * int dy) (maxHeight E)
                 in ds_Cr E (if row < maxHeight E then 3 * word_of_int (e_width E) else 0)
                      ((ds_next E row ^^ dx)
                         (pixel_pos row (e_width E) mcuX * 3, mcuX,
                          if mcuX < maxWidth E then 3 else 0)))"
  have "s_Cb (downsample_chroma E mcuX mcuY st) = store_block FCb (rev [0..<8]) (s_Cb st)"
    unfolding FCb_def by (simp add: downsample_chroma_eq)
  moreover have "list_all (chrominance_sample (e_fp E)) (store_block FCb (rev [0..<8]) (s_Cb st))"
    by (rule store_block_list_all [OF l(1) block_rows(2)]) (simp add: FCb_def Let_def ds_chrominance)
  ultimately show "list_all (chrominance_sample (e_fp E)) (s_Cb (downsample_chroma E mcuX mcuY st))"
    by simp
  have "s_Cr (downsample_chroma E mcuX mcuY st) = store_block FCr (rev [0..<8]) (s_Cr st)"
    unfolding FCr_def by (simp add: downsample_chroma_eq)
  moreover have "list_all (chrominance_sample (e_fp E)) (store_block FCr (rev [0..<8]) (s_Cr st))"
    by (rule store_block_list_all [OF l(2) block_rows(2)]) (simp add: FCr_def Let_def ds_chrominance)
  ultimately show "list_all (chrominance_sample (e_fp E)) (s_Cr (downsample_chroma E mcuX mcuY st))"
    by simp
qed

lemma encode_Y_total:
  assumes "samples_in_range (e_fp E) (e_scaled_luminance E) (e_scaled_chrominance E)"
    and "length (e_quantized0 E) = 64" "dc_in_range st"
    and "list_all (luminance_sample (e_fp E)) (s_Y st)"
  shows "\<exists>st'. encode_Y E st = Inr st' \<and> dc_in_range st' \<and>
           s_Cb st' = s_Cb st \<and> s_Cr st' = s_Cr st"
proof -
  have "coefficients_in_range (e_fp E) (e_scaled_luminance E) (s_Y st)"
    using assms(1,3,4) by (simp add: samples_in_range_def dc_in_range_def)
  from encode_block_total [OF this assms(2), of "s_lastYDC st" True "e_K E" "s_writer st"]
  show ?thesis using assms(3) by (auto simp: encode_Y_def dc_in_range_def)
qed

lemma encode_Cb_total:
  assumes "samples_in_range (e_fp E) (e_scaled_luminance E) (e_scaled_chrominance E)"
    and "length (e_quantized0 E) = 64" "dc_in_range st"
    and "list_all (chrominance_sample (e_fp E)) (s_Cb st)"
  shows "\<exists>st'. encode_Cb E st = Inr st' \<and> dc_in_range st' \<and> s_Cr st' = s_Cr st"
proof -
  have "coefficients_in_range (e_fp E) (e_scaled_chrominance E) (s_Cb st)"
    using assms(1,3,4) by (simp add: samples_in_range_def dc_in_range_def)
  from encode_block_total [OF this assms(2), of "s_lastCbDC st" False "e_K E" "s_writer st"]
  show ?thesis using assms(3) by (auto simp: encode_Cb_def dc_in_range_def)
qed

lemma encode_Cr_total:
  assumes "samples_in_range (e_fp E) (e_scaled_luminance E) (e_scaled_chrominance E)"
    and "length (e_quantized0 E) = 64" "dc_in_range st"
    and "list_all (chrominance_sample (e_fp E)) (s_Cr st)"
  shows "\<exists>st'. encode_Cr E st = Inr st' \<and> dc_in_range st'"
proof -
  have "coefficients_in_range (e_fp E) (e_scaled_chrominance E) (s_Cr st)"
    using assms(1,3,4) by (simp add: samples_in_range_def dc_in_range_def)
  from encode_block_total [OF this assms(2), of "s_lastCrDC st" False "e_K E" "s_writer st"]
  show ?thesis using assms(3) by (auto simp: encode_Cr_def dc_in_range_def)
qed

lemma fold_fault_total:
  assumes "\<And>x s. P s \<Longrightarrow> \<exists>s'. f x s = Inr s' \<and> P s'" and "P s"
  shows "\<exists>s'. fold_fault f xs s = Inr s' \<and> P s'"
  using assms(2)
proof (induction xs arbitrary: s)
  case Nil
  then show ?case by simp
next
  case (Cons x xs)
  obtain s1 where "f x s = Inr s1" "P s1" using assms(1) [OF Cons.prems] by blast
  then show ?case using Cons.IH [of s1] by simp
qed

lemma block_offsets_not_Nil: "block_offsets E \<noteq> []"
  by (cases "e_downsample E") (simp_all add: block_offsets_def mcuSize_def Let_def upt_conv_Cons)

lemma encode_mcu_total:
  assumes "samples_in_range (e_fp E) (e_scaled_luminance E) (e_scaled_chrominance E)"
    and "length (e_quantized0 E) = 64" "dc_in_range st"
  shows "\<exists>st'. encode_mcu E mcuX mcuY st = Inr st' \<and> dc_in_range st'"
proof -
  define f where "f = (\<lambda>(blockY, blockX) st. encode_Y E (fill_block E mcuX mcuY blockX blockY st))"
  define Q where "Q = (\<lambda>s. dc_in_range s \<and>
      (e_isRGB E \<and> \<not> e_downsample E \<longrightarrow>
         list_all (chrominance_sample (e_fp E)) (s_Cb s) \<and>
         list_all (chrominance_sample (e_fp E)) (s_Cr s)))"
  have step: "\<exists>s'. f p s = Inr s' \<and> Q s'" if "dc_in_range s" for p s
  proof -
    note fb = fill_block_samples [OF that, of E mcuX mcuY "snd p" "fst p"]
    obtain s' where "encode_Y E (fill_block E mcuX mcuY (snd p) (fst p) s) = Inr s'"
      "dc_in_range s'" "s_Cb s' = s_Cb (fill_block E mcuX mcuY (snd p) (fst p) s)"
      "s_Cr s' = s_Cr (fill_block E mcuX mcuY (snd p) (fst p) s)"
      using encode_Y_total [OF assms(1,2) fb(1,2)] by blast
    then show ?thesis using fb(3) by (cases p) (auto simp: f_def Q_def)
  qed
  obtain p ps where ps: "block_offsets E = p # ps"
    using block_offsets_not_Nil [of E] by (cases "block_offsets E") auto
  obtain s1 where s1: "f p st = Inr s1" "Q s1" using step [OF assms(3)] by blast
  have "\<exists>st1. fold_fault f ps s1 = Inr st1 \<and> Q st1"
  proof (rule fold_fault_total [where P = Q, OF _ s1(2)])
    fix x s assume "Q s"
    then have "dc_in_range s" by (simp add: Q_def)
    then show "\<exists>s'. f x s = Inr s' \<and> Q s'" by (rule step)
  qed
  then obtain st1 where ys: "fold_fault f (block_offsets E) st = Inr st1" and q1: "Q st1"
    unfolding ps using s1(1) by auto
  have d1: "dc_in_range st1" using q1 by (simp add: Q_def)
  show ?thesis
  proof (cases "e_isRGB E")
    case False
    then show ?thesis using ys d1 by (simp add: encode_mcu_def f_def [symmetric])
  next
    case True
    define st2 where "st2 = (if e_downsample E then downsample_chroma E mcuX mcuY st1 else st1)"
    have d2: "dc_in_range st2"
      and c2: "list_all (chrominance_sample (e_fp E)) (s_Cb st2)"
        "list_all (chrominance_sample (e_fp E)) (s_Cr st2)"
      using downsample_chroma_samples [OF d1, of E mcuX mcuY] q1 True
      by (simp_all add: st2_def Q_def)
    obtain st3 where cb: "encode_Cb E st2 = Inr st3" "dc_in_range st3" "s_Cr st3 = s_Cr st2"
      using encode_Cb_total [OF assms(1,2) d2 c2(1)] by blast
    obtain st4 where cr: "encode_Cr E st3 = Inr st4" "dc_in_range st4"
      using encode_Cr_total [OF assms(1,2) cb(2)] c2(2) cb(3) by auto
    show ?thesis
      using ys True cb(1) cr by (simp add: encode_mcu_def f_def [symmetric] st2_def [symmetric])
  qed
qed

lemma mcu_x_loop_total:
  assumes "\<And>x y s. P s \<Longrightarrow> \<exists>s'. encode_mcu E x y s = Inr s' \<and> P s'" and "P st"
  shows "\<exists>st'. mcu_x_loop E mcuY mcuX st = Inr st' \<and> P st'"
  using assms
proof (induction E mcuY mcuX st rule: mcu_x_loop.induct)
  case (1 E mcuY mcuX st)
  show ?case
  proof (cases "mcuX < e_width E")
    case False
    then show ?thesis using "1.prems"(2) by (subst mcu_x_loop.simps) simp
  next
    case True
    obtain s1 where s1: "encode_mcu E mcuX mcuY st = Inr s1" "P s1"
      using "1.prems"(1) [OF "1.prems"(2)] by blast
    have "\<exists>st'. mcu_x_loop E mcuY (mcuX + mcuSize E) s1 = Inr st' \<and> P st'"
    proof (rule "1.IH" [OF True s1(1)])
      show "P s1" by (rule s1(2))
      fix x y s assume "P s"
      then show "\<exists>s'. encode_mcu E x y s = Inr s' \<and> P s'" by (rule "1.prems"(1))
    qed
    then show ?thesis using True s1(1) by (subst mcu_x_loop.simps) simp
  qed
qed

lemma mcu_y_loop_total:
  assumes "\<And>x y s. P s \<Longrightarrow> \<exists>s'. encode_mcu E x y s = Inr s' \<and> P s'" and "P st"
  shows "\<exists>st'. mcu_y_loop E mcuY st = Inr st' \<and> P st'"
  using assms
proof (induction E mcuY st rule: mcu_y_loop.induct)
  case (1 E mcuY st)
  show ?case
  proof (cases "mcuY < e_height E")
    case False
    then show ?thesis using "1.prems"(2) by (subst mcu_y_loop.simps) simp
  next
    case True
    have "\<exists>s1. mcu_x_loop E mcuY 0 st = Inr s1 \<and> P s1"
    proof (rule mcu_x_loop_total [where P = P, OF _ "1.prems"(2)])
      fix x y s assume "P s"
      then show "\<exists>s'. encode_mcu E x y s = Inr s' \<and> P s'" by (rule "1.prems"(1))
    qed
    then obtain s1 where s1: "mcu_x_loop E mcuY 0 st = Inr s1" "P s1" by blast
    have "\<exists>st'. mcu_y_loop E (mcuY + mcuSize E) s1 = Inr st' \<and> P st'"
    proof (rule "1.IH" [OF True s1(1)])
      show "P s1" by (rule s1(2))
      fix x y s assume "P s"
      then show "\<exists>s'. encode_mcu E x y s = Inr s' \<and> P s'" by (rule "1.prems"(1))
    qed
    then show ?thesis using True s1(1) by (subst mcu_y_loop.simps) simp
  qed
qed

lemma writeJpegIntern_total:
  assumes "samples_in_range fp scaled_lum scaled_chrom" "uninitialised_sized u"
  shows "\<exists>w'. writeJpegIntern K fp u bitWriter pixels width height downsample isRGB
       quantLuminance quantChrominance scaled_lum scaled_chrom comment = Inr (True, w')"
proof -
  define w where "w = write_headers K bitWriter width height downsample isRGB
                quantLuminance quantChrominance comment"
  define E where "E = scan_env_of K fp u pixels width height downsample isRGB scaled_lum scaled_chrom"
  define st0 where "st0 = \<lparr>s_writer = w, s_lastYDC = 0, s_lastCbDC = 0, s_lastCrDC = 0,
                 s_Y = u_Y u, s_Cb = u_Cb u, s_Cr = u_Cr u\<rparr>"
  have E: "samples_in_range (e_fp E) (e_scaled_luminance E) (e_scaled_chrominance E)"
    "length (e_quantized0 E) = 64"
    using assms by (simp_all add: E_def scan_env_of_def uninitialised_sized_def)
  have "dc_in_range st0"
    using assms(2) by (simp add: st0_def dc_in_range_def uninitialised_sized_def)
  then obtain st where "mcu_y_loop E 0 st0 = Inr st"
    using mcu_y_loop_total [where P = dc_in_range and E = E and st = st0 and mcuY = 0]
      encode_mcu_total [OF E] by blast
  then show ?thesis
    unfolding writeJpegIntern_def Let_def w_def [symmetric] E_def [symmetric] st0_def [symmetric]
    by simp
qed

lemma int_ops_in_range: "samples_in_range int_ops scaled_lum scaled_chrom"
  by (auto simp: samples_in_range_def coefficients_in_range_def int_ops_def clamp_def)

lemma zero_uninitialised_sized: "uninitialised_sized zero_uninitialised"
  by (simp add: uninitialised_sized_def zero_uninitialised_def)


subsection \<open>Byte stuffing of the scan\<close>

lemma stuffed_nth:
  "stuffed bs \<Longrightarrow> i < length bs \<Longrightarrow> bs ! i = 0xFF \<Longrightarrow> Suc i < length bs \<and> bs ! Suc i = 0"
proof (induction bs arbitrary: i rule: stuffed.induct)
  case 1
  then show ?case by simp
next
  case (2 a)
  then show ?case by simp
next
  case (3 a b r)
  show ?case
  proof (cases "a = 0xFF")
    case True
    then have b: "b = 0" and r: "stuffed r" using "3.prems"(1) by simp_all
    show ?thesis
    proof (cases i)
      case 0
      then show ?thesis using b by simp
    next
      case (Suc j)
      then have "j \<noteq> 0" using "3.prems"(3) b by (cases j) simp_all
      then obtain k where k: "j = Suc k" by (cases j) auto
      then show ?thesis using "3.IH"(1) [OF True r, of k] "3.prems"(2,3) Suc by simp
    qed
  next
    case False
    then have br: "stuffed (b # r)" using "3.prems"(1) by simp
    show ?thesis
    proof (cases i)
      case 0
      then show ?thesis using False "3.prems"(3) by simp
    next
      case (Suc j)
      then show ?thesis using "3.IH"(2) [OF False br, of j] "3.prems"(2,3) by simp
    qed
  qed
qed

lemma foldl_put_bits_stuffed: "appends_stuffed w (foldl put_bits w cs)"
proof (induction cs arbitrary: w)
  case Nil
  show ?case by (simp add: appends_stuffed_refl)
next
  case (Cons c cs)
  show ?case
    using appends_stuffed_trans [OF appends_stuffed_put_bits Cons.IH [of "put_bits w c"]] by simp
qed

lemma write_full_bytes_first:
  assumes "8 \<le> buffer_numBits w"
    and "oneByte = (ucast (drop_bit (unat (buffer_numBits w - 8)) (buffer_data w)) :: u8)"
  shows "\<exists>rest. sink (write_full_bytes w) =
           sink w @ (if oneByte = 0xFF then [0xFF, 0] else [oneByte]) @ rest"
proof -
  define w2 where "w2 = (if oneByte = 0xFF
      then put_byte (put_byte (w\<lparr>buffer_numBits := buffer_numBits w - 8\<rparr>) oneByte) 0
      else put_byte (w\<lparr>buffer_numBits := buffer_numBits w - 8\<rparr>) oneByte)"
  have "write_full_bytes w = write_full_bytes w2"
    using assms(1) by (subst write_full_bytes.simps) (simp add: Let_def w2_def assms(2))
  moreover obtain bs where "sink (write_full_bytes w2) = sink w2 @ bs"
    using write_full_bytes_stuffed by blast
  moreover have "sink w2 = sink w @ (if oneByte = 0xFF then [0xFF, 0] else [oneByte])"
    by (simp add: w2_def put_byte_def)
  ultimately show ?thesis by simp
qed

lemma example_full_byte:
  "(8 :: u8) \<le> buffer_numBits \<lparr>sink = [], buffer_data = 0xFF, buffer_numBits = 8\<rparr>"
  "(ucast (drop_bit (unat (buffer_numBits \<lparr>sink = [], buffer_data = 0xFF, buffer_numBits = 8\<rparr> - 8))
      (buffer_data \<lparr>sink = [], buffer_data = 0xFF, buffer_numBits = 8\<rparr>)) :: u8) = 0xFF"
  by simp_all

lemma example_put_bits:
  "sink (foldl put_bits new_BitWriter [\<lparr>code = 0xFF, numBits = 8\<rparr>, \<lparr>code = 0x1FE, numBits = 9\<rparr>])
     = [0xFF, 0, 0xFF, 0]"
  by code_simp

text \<open>
  C3. Whenever the loop of \<open>operator<<(const BitCode &)\<close> finds a full byte in the bit
  buffer, the sink receives that byte and, if it is \<open>0xFF\<close>, the byte \<open>0x00\<close>
  right after it. For every writer and every sequence of bit codes appended to it, the
  bytes the sink receives are byte-stuffed: every \<open>0xFF\<close> is immediately followed by
  \<open>0x00\<close>. Consequently, whenever writeJpegIntern returns, what the sink holds is
  the headers (they end with the scan header), then the entropy-coded data, then the EOI
  marker \<open>FF D9\<close>, and every \<open>0xFF\<close> of the entropy-coded data is immediately
  followed by \<open>0x00\<close>.
\<close>

theorem entropy_bytes_stuffed:
  "(8 \<le> buffer_numBits w0 \<longrightarrow>
      (\<exists>rest. sink (write_full_bytes w0) =
         sink w0 @
         (if (ucast (drop_bit (unat (buffer_numBits w0 - 8)) (buffer_data w0)) :: u8) = 0xFF
          then [0xFF, 0]
          else [ucast (drop_bit (unat (buffer_numBits w0 - 8)) (buffer_data w0))]) @ rest)) \<and>
   (\<exists>bs. sink (foldl put_bits w cs) = sink w @ bs \<and> stuffed bs \<and>
         (\<forall>i. i < length bs \<and> bs ! i = 0xFF \<longrightarrow> Suc i < length bs \<and> bs ! Suc i = 0)) \<and>
   (\<forall>ok w'. writeJpegIntern K fp u bitWriter pixels width height downsample isRGB
               quantLuminance quantChrominance scaled_lum scaled_chrom comment = Inr (ok, w') \<longrightarrow>
      (\<exists>entropy. sink w' =
           sink (write_headers K bitWriter width height downsample isRGB
                   quantLuminance quantChrominance comment) @ entropy @ [0xFF, 0xD9] \<and>
         stuffed entropy \<and>
         (\<forall>i. i < length entropy \<and> entropy ! i = 0xFF \<longrightarrow>
              Suc i < length entropy \<and> entropy ! Suc i = 0)))"
proof (intro conjI allI impI)
  assume "8 \<le> buffer_numBits w0"
  then show "\<exists>rest. sink (write_full_bytes w0) =
         sink w0 @
         (if (ucast (drop_bit (unat (buffer_numBits w0 - 8)) (buffer_data w0)) :: u8) = 0xFF
          then [0xFF, 0]
          else [ucast (drop_bit (unat (buffer_numBits w0 - 8)) (buffer_data w0))]) @ rest"
    by (rule write_full_bytes_first) simp
next
  obtain bs where "sink (foldl put_bits w cs) = sink w @ bs" "stuffed bs"
    using foldl_put_bits_stuffed [of w cs] unfolding appends_stuffed_def by blast
  then show "\<exists>bs. sink (foldl put_bits w cs) = sink w @ bs \<and> stuffed bs \<and>
         (\<forall>i. i < length bs \<and> bs ! i = 0xFF \<longrightarrow> Suc i < length bs \<and> bs ! Suc i = 0)"
    using stuffed_nth [of bs] by blast
next
  fix ok w'
  assume "writeJpegIntern K fp u bitWriter pixels width height downsample isRGB
               quantLuminance quantChrominance scaled_lum scaled_chrom comment = Inr (ok, w')"
  then obtain entropy where "sink w' =
           sink (write_headers K bitWriter width height downsample isRGB
                   quantLuminance quantChrominance comment) @ entropy @ [0xFF, 0xD9]"
    "stuffed entropy"
    using writeJpegIntern_stuffed by blast
  then show "\<exists>entropy. sink w' =
           sink (write_headers K bitWriter width height downsample isRGB
                   quantLuminance quantChrominance comment) @ entropy @ [0xFF, 0xD9] \<and>
         stuffed entropy \<and>
         (\<forall>i. i < length entropy \<and> entropy ! i = 0xFF \<longrightarrow>
              Suc i < length entropy \<and> entropy ! Suc i = 0)"
    using stuffed_nth [of entropy] by blast
qed

theorem entropy_bytes_stuffed_witness:
  "(\<exists>rest. sink (write_full_bytes \<lparr>sink = [], buffer_data = 0xFF, buffer_numBits = 8\<rparr>) =
      [0xFF, 0] @ rest) \<and>
   sink (foldl put_bits new_BitWriter
           [\<lparr>code = 0xFF, numBits = 8\<rparr>, \<lparr>code = 0x1FE, numBits = 9\<rparr>]) = [0xFF, 0, 0xFF, 0] \<and>
   stuffed (sink (foldl put_bits new_BitWriter
               [\<lparr>code = 0xFF, numBits = 8\<rparr>, \<lparr>code = 0x1FE, numBits = 9\<rparr>])) \<and>
   (\<exists>w' entropy.
      writeJpegIntern annexK int_ops zero_uninitialised new_BitWriter (\<lambda>p. 0xFF) 8 8 False False
        (replicate 64 1) (replicate 64 1) (replicate 64 1) (replicate 64 1) [] = Inr (True, w') \<and>
      sink w' = sink (write_headers annexK new_BitWriter 8 8 False False
                        (replicate 64 1) (replicate 64 1) []) @ entropy @ [0xFF, 0xD9] \<and>
      stuffed entropy)"
proof -
  obtain w' where w': "writeJpegIntern annexK int_ops zero_uninitialised new_BitWriter (\<lambda>p. 0xFF) 8 8 False False
        (replicate 64 1) (replicate 64 1) (replicate 64 1) (replicate 64 1) [] = Inr (True, w')"
    using writeJpegIntern_total [OF int_ops_in_range zero_uninitialised_sized] by blast
  note T = entropy_bytes_stuffed [of "\<lparr>sink = [], buffer_data = 0xFF, buffer_numBits = 8\<rparr>"
        new_BitWriter
        "[\<lparr>code = 0xFF, numBits = 8\<rparr>, \<lparr>code = 0x1FE, numBits = 9\<rparr>]"
        annexK int_ops zero_uninitialised
        new_BitWriter "\<lambda>p. 0xFF" 8 8 False False "replicate 64 1" "replicate 64 1"
        "replicate 64 1" "replicate 64 1" "[]"]
  from T have "\<exists>bs. sink (foldl put_bits new_BitWriter
               [\<lparr>code = 0xFF, numBits = 8\<rparr>, \<lparr>code = 0x1FE, numBits = 9\<rparr>]) = sink new_BitWriter @ bs \<and>
         stuffed bs"
    by blast
  then have 1: "stuffed (sink (foldl put_bits new_BitWriter
               [\<lparr>code = 0xFF, numBits = 8\<rparr>, \<lparr>code = 0x1FE, numBits = 9\<rparr>]))"
    by (simp add: new_BitWriter_def)
  from T w' have "\<exists>entropy. sink w' = sink (write_headers annexK new_BitWriter 8 8 False False
                        (replicate 64 1) (replicate 64 1) []) @ entropy @ [0xFF, 0xD9] \<and>
      stuffed entropy"
    by blast
  moreover from T have "\<exists>rest. sink (write_full_bytes \<lparr>sink = [], buffer_data = 0xFF, buffer_numBits = 8\<rparr>) =
      [0xFF, 0] @ rest"
    unfolding example_full_byte by simp
  ultimately show ?thesis using 1 w' example_put_bits by blast
qed


subsection \<open>What the output depends on\<close>

lemma skip_zeros_cong:
  assumes "length q1 = length q2" "\<forall>j. ac_i s \<le> j \<and> j < length q1 \<longrightarrow> q1 ! j = q2 ! j"
  shows "skip_zeros q1 h s = skip_zeros q2 h s"
  using assms
proof (induction q1 h s rule: skip_zeros.induct)
  case (1 quantized huffmanAC s)
  note len = "1.prems"(1) and agree = "1.prems"(2)
  show ?case
  proof (cases "length quantized \<le> ac_i s")
    case True
    then show ?thesis
      using len
      by (simp add: skip_zeros.simps [of quantized huffmanAC s] skip_zeros.simps [of q2 huffmanAC s])
  next
    case inb: False
    then have same: "quantized ! ac_i s = q2 ! ac_i s" using agree by simp
    show ?thesis
    proof (cases "quantized ! ac_i s = 0")
      case False
      then show ?thesis
        using len inb same
        by (simp add: skip_zeros.simps [of quantized huffmanAC s] skip_zeros.simps [of q2 huffmanAC s])
    next
      case zero: True
      define s1 where "s1 = s\<lparr>q_reads := q_reads s @ [ac_i s], ac_offset := ac_offset s + 0x10\<rparr>"
      show ?thesis
      proof (cases "0xF0 < ac_offset s1")
        case True
        have "skip_zeros quantized huffmanAC
                (s1\<lparr>ac_writer := put_bits (ac_writer s1) (huffmanAC ! 0xF0),
                    ac_symbols := ac_symbols s1 @ [0xF0], ac_offset := 0, ac_i := ac_i s1 + 1\<rparr>)
              = skip_zeros q2 huffmanAC
                (s1\<lparr>ac_writer := put_bits (ac_writer s1) (huffmanAC ! 0xF0),
                    ac_symbols := ac_symbols s1 @ [0xF0], ac_offset := 0, ac_i := ac_i s1 + 1\<rparr>)"
          using agree by (intro "1.IH"(1) [OF inb zero s1_def True len]) (simp add: s1_def)
        then show ?thesis
          using len inb zero same True
          by (simp add: skip_zeros.simps [of quantized huffmanAC s]
              skip_zeros.simps [of q2 huffmanAC s] s1_def Let_def)
      next
        case False
        have "skip_zeros quantized huffmanAC (s1\<lparr>ac_i := ac_i s1 + 1\<rparr>)
              = skip_zeros q2 huffmanAC (s1\<lparr>ac_i := ac_i s1 + 1\<rparr>)"
          using agree by (intro "1.IH"(2) [OF inb zero s1_def False len]) (simp add: s1_def)
        then show ?thesis
          using len inb zero same False
          by (simp add: skip_zeros.simps [of quantized huffmanAC s]
              skip_zeros.simps [of q2 huffmanAC s] s1_def Let_def)
      qed
    qed
  qed
qed

lemma ac_loop_cong:
  assumes "length q1 = length q2" "\<forall>j. ac_i s \<le> j \<and> j < length q1 \<longrightarrow> q1 ! j = q2 ! j"
  shows "ac_loop q1 pos h s = ac_loop q2 pos h s"
  using assms
proof (induction q1 pos h s rule: ac_loop.induct)
  case (1 quantized posNonZero huffmanAC s)
  note len = "1.prems"(1) and agree = "1.prems"(2)
  show ?case
  proof (cases "ac_i s \<le> posNonZero")
    case False
    then show ?thesis
      by (simp add: ac_loop.simps [of quantized posNonZero huffmanAC s]
          ac_loop.simps [of q2 posNonZero huffmanAC s])
  next
    case True
    have sk: "skip_zeros quantized huffmanAC s = skip_zeros q2 huffmanAC s"
      using len agree by (rule skip_zeros_cong)
    show ?thesis
    proof (cases "skip_zeros quantized huffmanAC s")
      case (Inl e)
      then show ?thesis
        using True sk
        by (simp add: ac_loop.simps [of quantized posNonZero huffmanAC s]
            ac_loop.simps [of q2 posNonZero huffmanAC s])
    next
      case (Inr s1)
      have idx: "ac_i s \<le> ac_i s1 \<and> ac_i s1 < length quantized"
        using Inr by (rule skip_zeros_index)
      have sq2: "skip_zeros q2 huffmanAC s = Inr s1" using sk Inr by simp
      have same: "quantized ! ac_i s1 = q2 ! ac_i s1" using agree idx by simp
      show ?thesis
      proof (cases "codewords (sint (quantized ! ac_i s1))")
        case cw: (Inl e)
        then show ?thesis
          using True sq2 Inr same
          by (simp add: ac_loop.simps [of quantized posNonZero huffmanAC s]
              ac_loop.simps [of q2 posNonZero huffmanAC s])
      next
        case cw: (Inr encoded)
        show ?thesis
        proof (cases "huffman_at huffmanAC (ac_offset s1 + unat (numBits encoded))")
          case hf: (Inl e)
          then show ?thesis
            using True sq2 Inr same cw
            by (simp add: ac_loop.simps [of quantized posNonZero huffmanAC s]
                ac_loop.simps [of q2 posNonZero huffmanAC s])
        next
          case hf: (Inr hc)
          define s2 where "s2 = s1\<lparr>ac_writer := put_bits (put_bits (ac_writer s1) hc) encoded,
                             q_reads := q_reads s1 @ [ac_i s1],
                             cw_reads := cw_reads s1 @ [sint (quantized ! ac_i s1)],
                             ac_symbols := ac_symbols s1 @ [ac_offset s1 + unat (numBits encoded)],
                             ac_offset := 0,
                             ac_i := ac_i s1 + 1\<rparr>"
          have "ac_loop quantized posNonZero huffmanAC s2 = ac_loop q2 posNonZero huffmanAC s2"
            unfolding s2_def
            using agree idx by (intro "1.IH" [OF True Inr refl cw hf len]) simp
          then show ?thesis
            using True sq2 Inr same cw hf
            by (simp add: ac_loop.simps [of quantized posNonZero huffmanAC s]
                ac_loop.simps [of q2 posNonZero huffmanAC s] s2_def)
        qed
      qed
    qed
  qed
qed

lemma encode_ac_cong:
  assumes "length q1 = length q2" "\<forall>j. 1 \<le> j \<and> j < length q1 \<longrightarrow> q1 ! j = q2 ! j"
  shows "encode_ac q1 pos h w = encode_ac q2 pos h w"
  using ac_loop_cong [OF assms(1), of "\<lparr>ac_i = 1, ac_offset = 0, ac_writer = w,
              q_reads = [], cw_reads = [], ac_symbols = []\<rparr>" pos h] assms(2)
  by (simp add: encode_ac_def)

lemma quantize_indep:
  assumes "length q0 = 64" "length q0' = 64"
    and "quantize fp b q0 = (q, pos)" "quantize fp b q0' = (q', pos')"
  shows "pos = pos'" "length q = length q'" "\<forall>j. 1 \<le> j \<and> j < length q \<longrightarrow> q ! j = q' ! j"
proof -
  note a = quantize_props [OF assms(1,3)] and b = quantize_props [OF assms(2,4)]
  show len: "length q = length q'" using a(1) b(1) by simp
  show agree: "\<forall>j. 1 \<le> j \<and> j < length q \<longrightarrow> q ! j = q' ! j"
    using a(1) a(5) b(5) by simp
  show "pos = pos'"
  proof (rule ccontr)
    assume ne: "pos \<noteq> pos'"
    show False
    proof (cases "pos < pos'")
      case True
      then have "1 \<le> pos'" "q' ! pos' \<noteq> 0" using b(3) by auto
      moreover have "q ! pos' = 0" using a(4) [OF True b(2)] .
      ultimately show False using agree b(2) a(1) by simp
    next
      case False
      then have lt: "pos' < pos" using ne by simp
      then have "1 \<le> pos" "q ! pos \<noteq> 0" using a(3) by auto
      moreover have "q' ! pos = 0" using b(4) [OF lt a(2)] .
      ultimately show False using agree a(2) a(1) by simp
    qed
  qed
qed

lemma encode_block_indep:
  assumes "length q0 = 64" "length q0' = 64"
  shows "encode_block luminance K fp w block64 scaled lastDC q0 =
         encode_block luminance K fp w block64 scaled lastDC q0'"
proof -
  let ?b = "map (dct_scale fp scaled block64) [0..<64]"
  obtain q pos where 1: "quantize fp ?b q0 = (q, pos)" by (cases "quantize fp ?b q0")
  obtain q' pos' where 2: "quantize fp ?b q0' = (q', pos')" by (cases "quantize fp ?b q0'")
  note i = quantize_indep [OF assms 1 2]
  have "encode_ac q pos h w1 = encode_ac q' pos' h w1" for h w1
    using encode_ac_cong [OF i(2,3)] i(1) by simp
  then show ?thesis
    unfolding encode_block_cases [OF 1] encode_block_cases [OF 2]
    by (simp split: sum.splits prod.splits)
qed

lemma maxWidth_quantized0 [simp]: "maxWidth (E\<lparr>e_quantized0 := q\<rparr>) = maxWidth E"
  by (simp add: maxWidth_def)

lemma maxHeight_quantized0 [simp]: "maxHeight (E\<lparr>e_quantized0 := q\<rparr>) = maxHeight E"
  by (simp add: maxHeight_def)

lemma mcuSize_quantized0 [simp]: "mcuSize (E\<lparr>e_quantized0 := q\<rparr>) = mcuSize E"
  by (simp add: mcuSize_def)

lemma block_offsets_quantized0 [simp]: "block_offsets (E\<lparr>e_quantized0 := q\<rparr>) = block_offsets E"
  by (simp add: block_offsets_def)

lemma fill_pixel_quantized0 [simp]: "fill_pixel (E\<lparr>e_quantized0 := q\<rparr>) = fill_pixel E"
  by (simp add: fill_pixel_def fun_eq_iff Let_def cong: if_cong)

lemma fill_block_quantized0 [simp]: "fill_block (E\<lparr>e_quantized0 := q\<rparr>) = fill_block E"
  by (simp add: fill_block_def fun_eq_iff Let_def)

lemma downsample_pixel_quantized0 [simp]:
  "downsample_pixel (E\<lparr>e_quantized0 := q\<rparr>) = downsample_pixel E"
  by (simp add: downsample_pixel_def fun_eq_iff Let_def cong: if_cong)

lemma downsample_chroma_quantized0 [simp]:
  "downsample_chroma (E\<lparr>e_quantized0 := q\<rparr>) = downsample_chroma E"
  by (simp add: downsample_chroma_def fun_eq_iff Let_def cong: if_cong)

lemma encode_quantized0:
  assumes "length (e_quantized0 E) = 64" "length q = 64"
  shows "encode_Y (E\<lparr>e_quantized0 := q\<rparr>) st = encode_Y E st"
    "encode_Cb (E\<lparr>e_quantized0 := q\<rparr>) st = encode_Cb E st"
    "encode_Cr (E\<lparr>e_quantized0 := q\<rparr>) st = encode_Cr E st"
  by (simp_all add: encode_Y_def encode_Cb_def encode_Cr_def encode_block_indep [OF assms(2,1)])

lemma encode_mcu_quantized0:
  assumes "length (e_quantized0 E) = 64" "length q = 64"
  shows "encode_mcu (E\<lparr>e_quantized0 := q\<rparr>) mcuX mcuY st = encode_mcu E mcuX mcuY st"
  by (simp add: encode_mcu_def encode_quantized0 [OF assms] Let_def cong: sum.case_cong if_cong)

lemma mcu_x_loop_quantized0:
  assumes "length (e_quantized0 E) = 64" "length q = 64"
  shows "mcu_x_loop (E\<lparr>e_quantized0 := q\<rparr>) mcuY mcuX st = mcu_x_loop E mcuY mcuX st"
  using assms
proof (induction E mcuY mcuX st rule: mcu_x_loop.induct)
  case (1 E mcuY mcuX st)
  note em = encode_mcu_quantized0 [OF "1.prems"]
  show ?case
  proof (cases "mcuX < e_width E")
    case False
    then show ?thesis
      by (simp add: mcu_x_loop.simps [of E mcuY mcuX st]
          mcu_x_loop.simps [of "E\<lparr>e_quantized0 := q\<rparr>" mcuY mcuX st])
  next
    case True
    show ?thesis
    proof (cases "encode_mcu E mcuX mcuY st")
      case (Inl e)
      then show ?thesis
        using True em
        by (simp add: mcu_x_loop.simps [of E mcuY mcuX st]
            mcu_x_loop.simps [of "E\<lparr>e_quantized0 := q\<rparr>" mcuY mcuX st])
    next
      case (Inr s1)
      then show ?thesis
        using True em "1.IH" [OF True Inr "1.prems"]
        by (simp add: mcu_x_loop.simps [of E mcuY mcuX st]
            mcu_x_loop.simps [of "E\<lparr>e_quantized0 := q\<rparr>" mcuY mcuX st])
    qed
  qed
qed

lemma mcu_y_loop_quantized0:
  assumes "length (e_quantized0 E) = 64" "length q = 64"
  shows "mcu_y_loop (E\<lparr>e_quantized0 := q\<rparr>) mcuY st = mcu_y_loop E mcuY st"
  using assms
proof (induction E mcuY st rule: mcu_y_loop.induct)
  case (1 E mcuY st)
  note xl = mcu_x_loop_quantized0 [OF "1.prems"]
  show ?case
  proof (cases "mcuY < e_height E")
    case False
    then show ?thesis
      by (simp add: mcu_y_loop.simps [of E mcuY st]
          mcu_y_loop.simps [of "E\<lparr>e_quantized0 := q\<rparr>" mcuY st])
  next
    case True
    show ?thesis
    proof (cases "mcu_x_loop E mcuY 0 st")
      case (Inl e)
      then show ?thesis
        using True xl
        by (simp add: mcu_y_loop.simps [of E mcuY st]
            mcu_y_loop.simps [of "E\<lparr>e_quantized0 := q\<rparr>" mcuY st])
    next
      case (Inr s1)
      then show ?thesis
        using True xl "1.IH" [OF True Inr "1.prems"]
        by (simp add: mcu_y_loop.simps [of E mcuY st]
            mcu_y_loop.simps [of "E\<lparr>e_quantized0 := q\<rparr>" mcuY st])
    qed
  qed
qed

lemma rows_cover: "{0..<8} \<subseteq> set [0..<8]" "{0..<8} \<subseteq> set (rev [0..<8])"
  by (simp_all del: upt_Suc)

lemma fill_block_same:
  assumes "same_output st st'"
  shows "same_output (fill_block E x y bx by st) (fill_block E x y bx by st')"
    and "s_Y (fill_block E x y bx by st) = s_Y (fill_block E x y bx by st')"
    and "e_isRGB E \<Longrightarrow> \<not> e_downsample E \<Longrightarrow>
         same_chroma (fill_block E x y bx by st) (fill_block E x y bx by st')"
proof -
  have l: "length (s_Y st) = 64" "length (s_Cb st) = 64" "length (s_Cr st) = 64"
    "length (s_Y st') = 64" "length (s_Cb st') = 64" "length (s_Cr st') = 64"
    using assms by (simp_all add: same_output_def)
  show o: "same_output (fill_block E x y bx by st) (fill_block E x y bx by st')"
    using assms by (simp add: fill_block_eq same_output_def)
  show "s_Y (fill_block E x y bx by st) = s_Y (fill_block E x y bx by st')"
    by (simp add: fill_block_eq store_block_all [OF l(1) rows_cover(1)]
        store_block_all [OF l(4) rows_cover(1)])
  show "e_isRGB E \<Longrightarrow> \<not> e_downsample E \<Longrightarrow>
         same_chroma (fill_block E x y bx by st) (fill_block E x y bx by st')"
    using o unfolding same_chroma_def
    by (simp add: fill_block_eq store_block_all [OF l(2) rows_cover(1)]
        store_block_all [OF l(5) rows_cover(1)] store_block_all [OF l(3) rows_cover(1)]
        store_block_all [OF l(6) rows_cover(1)])
qed

lemma downsample_chroma_same:
  assumes "same_output st st'"
  shows "same_chroma (downsample_chroma E x y st) (downsample_chroma E x y st')"
proof -
  have l: "length (s_Cb st) = 64" "length (s_Cr st) = 64"
    "length (s_Cb st') = 64" "length (s_Cr st') = 64"
    using assms by (simp_all add: same_output_def)
  show ?thesis
    using assms unfolding same_chroma_def same_output_def
    by (simp add: downsample_chroma_eq store_block_all [OF l(1) rows_cover(2)]
        store_block_all [OF l(2) rows_cover(2)] store_block_all [OF l(3) rows_cover(2)]
        store_block_all [OF l(4) rows_cover(2)])
qed

lemma encode_Y_rel:
  assumes "length (e_quantized0 E) = 64" "same_output a a'" "s_Y a = s_Y a'"
  shows "rel_sum (=) same_output (encode_Y E a) (encode_Y E a')"
    and "same_chroma a a' \<Longrightarrow> rel_sum (=) same_chroma (encode_Y E a) (encode_Y E a')"
proof -
  have w: "s_writer a' = s_writer a" "s_lastYDC a' = s_lastYDC a" "s_Y a' = s_Y a"
    using assms(2,3) by (simp_all add: same_output_def)
  have 1: "rel_sum (=) same_output (encode_Y E a) (encode_Y E a') \<and>
        (same_chroma a a' \<longrightarrow> rel_sum (=) same_chroma (encode_Y E a) (encode_Y E a'))"
  proof (cases "encode_block True (e_K E) (e_fp E) (s_writer a) (s_Y a) (e_scaled_luminance E)
             (s_lastYDC a) (e_quantized0 E)")
    case (Inl e)
    then show ?thesis by (simp add: encode_Y_def w)
  next
    case (Inr r)
    have "length (br_block r) = 64" using encode_block_Inr(5) [OF assms(1) Inr] by simp
    then show ?thesis using Inr assms(2) by (simp add: encode_Y_def w same_output_def same_chroma_def)
  qed
  show "rel_sum (=) same_output (encode_Y E a) (encode_Y E a')" using 1 by simp
  show "same_chroma a a' \<Longrightarrow> rel_sum (=) same_chroma (encode_Y E a) (encode_Y E a')"
    using 1 by simp
qed

lemma encode_Cb_rel:
  assumes "length (e_quantized0 E) = 64" "same_chroma a a'"
  shows "rel_sum (=) same_chroma (encode_Cb E a) (encode_Cb E a')"
proof -
  have w: "s_writer a' = s_writer a" "s_lastCbDC a' = s_lastCbDC a" "s_Cb a' = s_Cb a"
    using assms(2) by (simp_all add: same_output_def same_chroma_def)
  show ?thesis
  proof (cases "encode_block False (e_K E) (e_fp E) (s_writer a) (s_Cb a) (e_scaled_chrominance E)
             (s_lastCbDC a) (e_quantized0 E)")
    case (Inl e)
    then show ?thesis by (simp add: encode_Cb_def w)
  next
    case (Inr r)
    have "length (br_block r) = 64" using encode_block_Inr(5) [OF assms(1) Inr] by simp
    then show ?thesis using Inr assms(2) by (simp add: encode_Cb_def w same_output_def same_chroma_def)
  qed
qed

lemma encode_Cr_rel:
  assumes "length (e_quantized0 E) = 64" "same_chroma a a'"
  shows "rel_sum (=) same_output (encode_Cr E a) (encode_Cr E a')"
proof -
  have w: "s_writer a' = s_writer a" "s_lastCrDC a' = s_lastCrDC a" "s_Cr a' = s_Cr a"
    using assms(2) by (simp_all add: same_output_def same_chroma_def)
  show ?thesis
  proof (cases "encode_block False (e_K E) (e_fp E) (s_writer a) (s_Cr a) (e_scaled_chrominance E)
             (s_lastCrDC a) (e_quantized0 E)")
    case (Inl e)
    then show ?thesis by (simp add: encode_Cr_def w)
  next
    case (Inr r)
    have "length (br_block r) = 64" using encode_block_Inr(5) [OF assms(1) Inr] by simp
    then show ?thesis using Inr assms(2) by (simp add: encode_Cr_def w same_output_def same_chroma_def)
  qed
qed

lemma fold_fault_rel:
  assumes "\<And>x s t. R s t \<Longrightarrow> rel_sum (=) R (f x s) (f x t)" and "R s t"
  shows "rel_sum (=) R (fold_fault f xs s) (fold_fault f xs t)"
  using assms(2)
proof (induction xs arbitrary: s t)
  case Nil
  then show ?case by simp
next
  case (Cons x xs)
  show ?case
  proof (cases "f x s")
    case (Inl e)
    then show ?thesis using assms(1) [OF Cons.prems, of x] by (cases "f x t") simp_all
  next
    case (Inr s1)
    then obtain t1 where t1: "f x t = Inr t1" "R s1 t1"
      using assms(1) [OF Cons.prems, of x] by (cases "f x t") simp_all
    show ?thesis using Inr t1(1) Cons.IH [OF t1(2)] by simp
  qed
qed

lemma block_offsets_Cons: "\<exists>x xs. block_offsets E = x # xs"
  by (cases "e_downsample E") (simp_all add: block_offsets_def mcuSize_def Let_def upt_conv_Cons)

lemma blocks_related_output: "blocks_related E st st' \<Longrightarrow> same_output st st'"
  by (simp add: blocks_related_def same_chroma_def split: if_splits)

lemma Y_block_rel:
  assumes "length (e_quantized0 E) = 64" "same_output s t"
  shows "rel_sum (=) (blocks_related E) (encode_Y E (fill_block E x y bx by s))
           (encode_Y E (fill_block E x y bx by t))"
proof (cases "e_isRGB E \<and> \<not> e_downsample E")
  case True
  then have "same_chroma (fill_block E x y bx by s) (fill_block E x y bx by t)"
    using fill_block_same(3) [OF assms(2)] by simp
  then have "rel_sum (=) same_chroma (encode_Y E (fill_block E x y bx by s))
           (encode_Y E (fill_block E x y bx by t))"
    by (intro encode_Y_rel(2) [OF assms(1) fill_block_same(1) [OF assms(2)]
          fill_block_same(2) [OF assms(2)]])
  moreover have "blocks_related E = same_chroma" using True by (simp add: blocks_related_def fun_eq_iff)
  ultimately show ?thesis by simp
next
  case False
  have "rel_sum (=) same_output (encode_Y E (fill_block E x y bx by s))
           (encode_Y E (fill_block E x y bx by t))"
    by (intro encode_Y_rel(1) [OF assms(1) fill_block_same(1) [OF assms(2)]
          fill_block_same(2) [OF assms(2)]])
  moreover have "blocks_related E = same_output" using False by (auto simp: blocks_related_def fun_eq_iff)
  ultimately show ?thesis by simp
qed

lemma encode_mcu_rel:
  assumes "length (e_quantized0 E) = 64" "same_output s t"
  shows "rel_sum (=) same_output (encode_mcu E x y s) (encode_mcu E x y t)"
proof -
  define f where "f = (\<lambda>(blockY, blockX) st. encode_Y E (fill_block E x y blockX blockY st))"
  have step0: "same_output a b \<Longrightarrow> rel_sum (=) (blocks_related E) (f p a) (f p b)" for p a b
    using Y_block_rel [OF assms(1), of a b x y "snd p" "fst p"] by (cases p) (simp add: f_def)
  have step: "blocks_related E a b \<Longrightarrow> rel_sum (=) (blocks_related E) (f p a) (f p b)" for p a b
    using step0 blocks_related_output by blast
  obtain p ps where ps: "block_offsets E = p # ps" using block_offsets_Cons by blast
  have ys: "rel_sum (=) (blocks_related E) (fold_fault f (block_offsets E) s)
              (fold_fault f (block_offsets E) t)"
  proof (cases "f p s")
    case (Inl e)
    then show ?thesis using step0 [OF assms(2), of p] unfolding ps by (cases "f p t") simp_all
  next
    case (Inr s1)
    then obtain t1 where t1: "f p t = Inr t1" "blocks_related E s1 t1"
      using step0 [OF assms(2), of p] by (cases "f p t") simp_all
    have "rel_sum (=) (blocks_related E) (fold_fault f ps s1) (fold_fault f ps t1)"
      by (rule fold_fault_rel [where R = "blocks_related E", OF _ t1(2)]) (rule step)
    then show ?thesis unfolding ps using Inr t1(1) by simp
  qed
  show ?thesis
  proof (cases "fold_fault f (block_offsets E) s")
    case (Inl e)
    then have "fold_fault f (block_offsets E) t = Inl e"
      using ys by (cases "fold_fault f (block_offsets E) t") simp_all
    then show ?thesis using Inl by (simp add: encode_mcu_def f_def [symmetric])
  next
    case (Inr s1)
    then obtain t1 where t1: "fold_fault f (block_offsets E) t = Inr t1" "blocks_related E s1 t1"
      using ys by (cases "fold_fault f (block_offsets E) t") simp_all
    note o1 = blocks_related_output [OF t1(2)]
    show ?thesis
    proof (cases "e_isRGB E")
      case False
      then show ?thesis using Inr t1(1) o1 by (simp add: encode_mcu_def f_def [symmetric])
    next
      case True
      define s2 where "s2 = (if e_downsample E then downsample_chroma E x y s1 else s1)"
      define t2 where "t2 = (if e_downsample E then downsample_chroma E x y t1 else t1)"
      have c2: "same_chroma s2 t2"
        using downsample_chroma_same [OF o1, of E x y] t1(2) True
        by (simp add: s2_def t2_def blocks_related_def)
      have cb: "rel_sum (=) same_chroma (encode_Cb E s2) (encode_Cb E t2)"
        using assms(1) c2 by (rule encode_Cb_rel)
      have run_s: "encode_mcu E x y s = (case encode_Cb E s2 of Inl e \<Rightarrow> Inl e | Inr st3 \<Rightarrow> encode_Cr E st3)"
        using Inr True by (simp add: encode_mcu_def f_def [symmetric] s2_def)
      have run_t: "encode_mcu E x y t = (case encode_Cb E t2 of Inl e \<Rightarrow> Inl e | Inr st3 \<Rightarrow> encode_Cr E st3)"
        using t1(1) True by (simp add: encode_mcu_def f_def [symmetric] t2_def)
      show ?thesis
      proof (cases "encode_Cb E s2")
        case (Inl e)
        then show ?thesis using cb unfolding run_s run_t by (cases "encode_Cb E t2") simp_all
      next
        case (Inr s3)
        then obtain t3 where t3: "encode_Cb E t2 = Inr t3" "same_chroma s3 t3"
          using cb by (cases "encode_Cb E t2") simp_all
        show ?thesis
          unfolding run_s run_t using Inr t3(1) encode_Cr_rel [OF assms(1) t3(2)] by simp
      qed
    qed
  qed
qed

lemma mcu_x_loop_rel:
  assumes "length (e_quantized0 E) = 64" "same_output s t"
  shows "rel_sum (=) same_output (mcu_x_loop E mcuY mcuX s) (mcu_x_loop E mcuY mcuX t)"
  using assms
proof (induction E mcuY mcuX s arbitrary: t rule: mcu_x_loop.induct)
  case (1 E mcuY mcuX st)
  note em = encode_mcu_rel [OF "1.prems", of mcuX mcuY]
  show ?case
  proof (cases "mcuX < e_width E")
    case False
    then show ?thesis
      using "1.prems"(2)
      by (simp add: mcu_x_loop.simps [of E mcuY mcuX st] mcu_x_loop.simps [of E mcuY mcuX t])
  next
    case True
    show ?thesis
    proof (cases "encode_mcu E mcuX mcuY st")
      case (Inl e)
      then have "encode_mcu E mcuX mcuY t = Inl e"
        using em by (cases "encode_mcu E mcuX mcuY t") simp_all
      then show ?thesis
        using True Inl
        by (simp add: mcu_x_loop.simps [of E mcuY mcuX st] mcu_x_loop.simps [of E mcuY mcuX t])
    next
      case (Inr s1)
      then obtain t1 where t1: "encode_mcu E mcuX mcuY t = Inr t1" "same_output s1 t1"
        using em by (cases "encode_mcu E mcuX mcuY t") simp_all
      show ?thesis
        using True Inr t1(1) "1.IH" [OF True Inr "1.prems"(1) t1(2)]
        by (simp add: mcu_x_loop.simps [of E mcuY mcuX st] mcu_x_loop.simps [of E mcuY mcuX t])
    qed
  qed
qed

lemma mcu_y_loop_rel:
  assumes "length (e_quantized0 E) = 64" "same_output s t"
  shows "rel_sum (=) same_output (mcu_y_loop E mcuY s) (mcu_y_loop E mcuY t)"
  using assms
proof (induction E mcuY s arbitrary: t rule: mcu_y_loop.induct)
  case (1 E mcuY st)
  note xl = mcu_x_loop_rel [OF "1.prems", of mcuY 0]
  show ?case
  proof (cases "mcuY < e_height E")
    case False
    then show ?thesis
      using "1.prems"(2)
      by (simp add: mcu_y_loop.simps [of E mcuY st] mcu_y_loop.simps [of E mcuY t])
  next
    case True
    show ?thesis
    proof (cases "mcu_x_loop E mcuY 0 st")
      case (Inl e)
      then have "mcu_x_loop E mcuY 0 t = Inl e"
        using xl by (cases "mcu_x_loop E mcuY 0 t") simp_all
      then show ?thesis
        using True Inl
        by (simp add: mcu_y_loop.simps [of E mcuY st] mcu_y_loop.simps [of E mcuY t])
    next
      case (Inr s1)
      then obtain t1 where t1: "mcu_x_loop E mcuY 0 t = Inr t1" "same_output s1 t1"
        using xl by (cases "mcu_x_loop E mcuY 0 t") simp_all
      show ?thesis
        using True Inr t1(1) "1.IH" [OF True Inr "1.prems"(1) t1(2)]
        by (simp add: mcu_y_loop.simps [of E mcuY st] mcu_y_loop.simps [of E mcuY t])
    qed
  qed
qed

lemma writeJpegIntern_uninitialised:
  assumes "uninitialised_sized u1" "uninitialised_sized u2"
  shows "writeJpegIntern K fp u1 bitWriter pixels width height downsample isRGB
           quantLuminance quantChrominance scaled_lum scaled_chrom comment =
         writeJpegIntern K fp u2 bitWriter pixels width height downsample isRGB
           quantLuminance quantChrominance scaled_lum scaled_chrom comment"
proof -
  define w where "w = write_headers K bitWriter width height downsample isRGB
                quantLuminance quantChrominance comment"
  define E1 where "E1 = scan_env_of K fp u1 pixels width height downsample isRGB scaled_lum scaled_chrom"
  define E2 where "E2 = scan_env_of K fp u2 pixels width height downsample isRGB scaled_lum scaled_chrom"
  define s where "s = \<lparr>s_writer = w, s_lastYDC = 0, s_lastCbDC = 0, s_lastCrDC = 0,
                 s_Y = u_Y u1, s_Cb = u_Cb u1, s_Cr = u_Cr u1\<rparr>"
  define t where "t = \<lparr>s_writer = w, s_lastYDC = 0, s_lastCbDC = 0, s_lastCrDC = 0,
                 s_Y = u_Y u2, s_Cb = u_Cb u2, s_Cr = u_Cr u2\<rparr>"
  have q1: "length (e_quantized0 E1) = 64" and q2: "length (u_quantized u2) = 64"
    using assms by (simp_all add: E1_def scan_env_of_def uninitialised_sized_def)
  have E2: "E2 = E1\<lparr>e_quantized0 := u_quantized u2\<rparr>"
    by (simp add: E1_def E2_def scan_env_of_def)
  have st: "same_output s t"
    using assms by (simp add: s_def t_def same_output_def uninitialised_sized_def)
  have "mcu_y_loop E2 0 t = mcu_y_loop E1 0 t"
    unfolding E2 using q1 q2 by (rule mcu_y_loop_quantized0)
  moreover have "rel_sum (=) same_output (mcu_y_loop E1 0 s) (mcu_y_loop E1 0 t)"
    using q1 st by (rule mcu_y_loop_rel)
  ultimately have r: "rel_sum (=) same_output (mcu_y_loop E1 0 s) (mcu_y_loop E2 0 t)" by simp
  have "(case mcu_y_loop E1 0 s of
           Inl e \<Rightarrow> Inl e
         | Inr st \<Rightarrow> Inr (True, put_byte (put_byte (flush (s_writer st)) 0xFF) 0xD9)) =
        (case mcu_y_loop E2 0 t of
           Inl e \<Rightarrow> Inl e
         | Inr st \<Rightarrow> Inr (True, put_byte (put_byte (flush (s_writer st)) 0xFF) 0xD9))"
    using r
    by (cases "mcu_y_loop E1 0 s"; cases "mcu_y_loop E2 0 t") (simp_all add: same_output_def)
  then show ?thesis
    unfolding writeJpegIntern_def Let_def w_def [symmetric] E1_def [symmetric] E2_def [symmetric]
      s_def [symmetric] t_def [symmetric] .
qed

lemma writeJpegQuality_uninitialised:
  assumes "uninitialised_sized u1" "uninitialised_sized u2"
  shows "writeJpegQuality K fp u1 pixels width height downsample isRGB quality_arg comment =
         writeJpegQuality K fp u2 pixels width height downsample isRGB quality_arg comment"
  by (simp add: writeJpegQuality_def writeJpegIntern_uninitialised [OF assms]
      cong: if_cong option.case_cong)

subsection \<open>Memory in front of the buffer reaches the output\<close>

lemma encode_mcu_gray:
  assumes "\<not> e_isRGB E" "\<not> e_downsample E"
  shows "encode_mcu E x y st = encode_Y E (fill_block E x y 0 0 st)"
proof -
  have "block_offsets E = [(0, 0)]"
    using assms(2) by (simp add: block_offsets_def mcuSize_def Let_def)
  then show ?thesis
    using assms(1) by (cases "encode_Y E (fill_block E x y 0 0 st)") (simp_all add: encode_mcu_def)
qed

lemma encode_Y_codes:
  assumes "length (e_quantized0 E) = 64"
    and "quantize (e_fp E) (map (dct_scale (e_fp E) (e_scaled_luminance E) (s_Y st)) [0..<64])
           (e_quantized0 E) = (quantized, posNonZero)"
    and "\<forall>j. 1 \<le> j \<and> j < 64 \<longrightarrow> \<bar>sint (quantized ! j)\<bar> < 2048"
    and "\<bar>round_int (e_fp E) (dct_scale (e_fp E) (e_scaled_luminance E) (s_Y st) 0)
            - sint (s_lastYDC st)\<bar> < 2048"
  shows "\<exists>st'. encode_Y E st = Inr st' \<and>
      s_writer st' = foldl put_bits (s_writer st)
        (spec_dc_codes (fst (huffman (e_K E) True))
           (round_int (e_fp E) (dct_scale (e_fp E) (e_scaled_luminance E) (s_Y st) 0)
              - sint (s_lastYDC st)) @
         spec_ac_codes (snd (huffman (e_K E) True)) 0 (map sint (drop 1 quantized)))"
  using encode_block_codes [OF assms, of True "e_K E" "s_writer st"]
  by (auto simp: encode_Y_def)

lemma overflow_tables:
  "fst (huffman annexK True) ! 7 = \<lparr>code = 30, numBits = 5\<rparr>"
  "snd (huffman annexK True) ! 7 = \<lparr>code = 248, numBits = 8\<rparr>"
  "snd (huffman annexK True) ! 8 = \<lparr>code = 1014, numBits = 10\<rparr>"
  by code_simp+

lemma overflow_env_fields:
  "\<not> e_isRGB huge_gray" "\<not> e_downsample huge_gray" "e_K huge_gray = annexK"
  "e_fp huge_gray = int_ops" "e_scaled_luminance huge_gray = replicate 64 1"
  "e_quantized0 huge_gray = replicate 64 0"
  "\<not> e_isRGB huge_white" "\<not> e_downsample huge_white" "e_K huge_white = annexK"
  "e_fp huge_white = int_ops" "e_scaled_luminance huge_white = replicate 64 1"
  "e_quantized0 huge_white = replicate 64 0"
  by (simp_all add: huge_gray_def huge_white_def scan_env_of_def zero_uninitialised_def)

lemma overflow_blocks:
  "s_Y (fill_block huge_white 0 32768 0 0 fresh_state) = replicate 64 127"
  "s_Y (fill_block huge_gray 0 32768 0 0 fresh_state) = replicate 8 127 @ replicate 56 (- 128)"
  by code_simp+

lemma overflow_state:
  "s_writer (fill_block E 0 32768 0 0 fresh_state) = new_BitWriter"
  "s_lastYDC (fill_block E 0 32768 0 0 fresh_state) = 0"
  by (simp_all add: fill_block_eq fresh_state_def)

lemma overflow_quantized:
  "quantize int_ops (map (dct_scale int_ops (replicate 64 1) (replicate 64 127)) [0..<64])
     (replicate 64 0) = (0 # replicate 63 127, 63)"
  "quantize int_ops (map (dct_scale int_ops (replicate 64 1) (replicate 8 127 @ replicate 56 (- 128)))
     [0..<64]) (replicate 64 0) =
     (0 # map (\<lambda>i. if ZigZagInv ! i < 8 then 127 else - 128) [1..<64], 63)"
  by code_simp+

lemma list_all_ac_range:
  assumes "list_all P xs" "length xs = 64"
  shows "\<forall>j. 1 \<le> j \<and> j < 64 \<longrightarrow> P (xs ! j)"
  using assms by (simp add: list_all_length)

lemma overflow_ranges:
  "\<forall>j. 1 \<le> j \<and> j < 64 \<longrightarrow> \<bar>sint ((0 # replicate 63 127 :: i16 list) ! j)\<bar> < 2048"
  "\<forall>j. 1 \<le> j \<and> j < 64 \<longrightarrow>
     \<bar>sint ((0 # map (\<lambda>i. if ZigZagInv ! i < 8 then 127 else - 128) [1..<64] :: i16 list) ! j)\<bar> < 2048"
proof -
  have a: "list_all (\<lambda>x. \<bar>sint x\<bar> < 2048) (0 # replicate 63 127 :: i16 list)"
    by code_simp
  have b: "list_all (\<lambda>x. \<bar>sint x\<bar> < 2048)
     (0 # map (\<lambda>i. if ZigZagInv ! i < 8 then 127 else - 128) [1..<64] :: i16 list)"
    by code_simp
  show "\<forall>j. 1 \<le> j \<and> j < 64 \<longrightarrow> \<bar>sint ((0 # replicate 63 127 :: i16 list) ! j)\<bar> < 2048"
    by (rule list_all_ac_range [OF a]) simp
  show "\<forall>j. 1 \<le> j \<and> j < 64 \<longrightarrow>
     \<bar>sint ((0 # map (\<lambda>i. if ZigZagInv ! i < 8 then 127 else - 128) [1..<64] :: i16 list) ! j)\<bar> < 2048"
    by (rule list_all_ac_range [OF b]) simp
qed

lemma overflow_dc:
  "\<bar>round_int int_ops (dct_scale int_ops (replicate 64 1) (replicate 64 127) 0) - sint (0 :: i16)\<bar> < 2048"
  "\<bar>round_int int_ops (dct_scale int_ops (replicate 64 1) (replicate 8 127 @ replicate 56 (- 128)) 0)
      - sint (0 :: i16)\<bar> < 2048"
  by code_simp+

lemma overflow_codes:
  "spec_dc_codes hDC
     (round_int int_ops (dct_scale int_ops (replicate 64 1) (replicate 64 127) 0) - sint (0 :: i16)) @
   spec_ac_codes hAC 0 (map sint (drop 1 (0 # replicate 63 127 :: i16 list))) =
     [hDC ! 7, \<lparr>code = 127, numBits = 7\<rparr>] @
     concat (replicate 63 [hAC ! 7, \<lparr>code = 127, numBits = 7\<rparr>])"
  "spec_dc_codes hDC
     (round_int int_ops (dct_scale int_ops (replicate 64 1) (replicate 8 127 @ replicate 56 (- 128)) 0)
        - sint (0 :: i16)) @
   spec_ac_codes hAC 0
     (map sint (drop 1 (0 # map (\<lambda>i. if ZigZagInv ! i < 8 then 127 else - 128) [1..<64] :: i16 list))) =
     [hDC ! 7, \<lparr>code = 127, numBits = 7\<rparr>] @
     concat (map (\<lambda>i. if ZigZagInv ! i < 8 then [hAC ! 7, \<lparr>code = 127, numBits = 7\<rparr>]
                        else [hAC ! 8, \<lparr>code = 127, numBits = 8\<rparr>]) [1..<64])"
  by code_simp+

lemma overflow_bytes:
  "take 8 (sink (foldl put_bits new_BitWriter
     ([\<lparr>code = 30, numBits = 5\<rparr>, \<lparr>code = 127, numBits = 7\<rparr>] @
      concat (replicate 63 [\<lparr>code = 248, numBits = 8\<rparr>, \<lparr>code = 127, numBits = 7\<rparr>])))) =
     [0xF7, 0xFF, 0, 0x8F, 0xFF, 0, 0x1F, 0xFE]"
  "take 8 (sink (foldl put_bits new_BitWriter
     ([\<lparr>code = 30, numBits = 5\<rparr>, \<lparr>code = 127, numBits = 7\<rparr>] @
      concat (map (\<lambda>i. if ZigZagInv ! i < 8 then [\<lparr>code = 248, numBits = 8\<rparr>, \<lparr>code = 127, numBits = 7\<rparr>]
                        else [\<lparr>code = 1014, numBits = 10\<rparr>, \<lparr>code = 127, numBits = 8\<rparr>]) [1..<64])))) =
     [0xF7, 0xFF, 0, 0x8F, 0xFF, 0, 0xB3, 0xFF]"
  by code_simp+

lemma overflow_mcu_white:
  "\<exists>st'. encode_mcu huge_white 0 32768 fresh_state = Inr st' \<and>
     take 8 (sink (s_writer st')) = [0xF7, 0xFF, 0, 0x8F, 0xFF, 0, 0x1F, 0xFE]"
proof -
  define st1 where "st1 = fill_block huge_white 0 32768 0 0 fresh_state"
  have f: "s_Y st1 = replicate 64 127" "s_writer st1 = new_BitWriter" "s_lastYDC st1 = 0"
    unfolding st1_def by (rule overflow_blocks overflow_state)+
  have len: "length (e_quantized0 huge_white) = 64" by (simp add: overflow_env_fields)
  have "\<exists>st'. encode_Y huge_white st1 = Inr st' \<and>
      s_writer st' = foldl put_bits (s_writer st1)
        (spec_dc_codes (fst (huffman (e_K huge_white) True))
           (round_int (e_fp huge_white)
              (dct_scale (e_fp huge_white) (e_scaled_luminance huge_white) (s_Y st1) 0)
              - sint (s_lastYDC st1)) @
         spec_ac_codes (snd (huffman (e_K huge_white) True)) 0
           (map sint (drop 1 (0 # replicate 63 127 :: i16 list))))"
  proof (rule encode_Y_codes [OF len])
    show "quantize (e_fp huge_white)
        (map (dct_scale (e_fp huge_white) (e_scaled_luminance huge_white) (s_Y st1)) [0..<64])
        (e_quantized0 huge_white) = (0 # replicate 63 127, 63)"
      unfolding overflow_env_fields f by (rule overflow_quantized(1))
    show "\<forall>j. 1 \<le> j \<and> j < 64 \<longrightarrow> \<bar>sint ((0 # replicate 63 127 :: i16 list) ! j)\<bar> < 2048"
      by (rule overflow_ranges(1))
    show "\<bar>round_int (e_fp huge_white)
              (dct_scale (e_fp huge_white) (e_scaled_luminance huge_white) (s_Y st1) 0)
              - sint (s_lastYDC st1)\<bar> < 2048"
      unfolding overflow_env_fields f by (rule overflow_dc(1))
  qed
  then obtain st' where st': "encode_Y huge_white st1 = Inr st'"
    "s_writer st' = foldl put_bits new_BitWriter
       ([\<lparr>code = 30, numBits = 5\<rparr>, \<lparr>code = 127, numBits = 7\<rparr>] @
        concat (replicate 63 [\<lparr>code = 248, numBits = 8\<rparr>, \<lparr>code = 127, numBits = 7\<rparr>]))"
    unfolding overflow_env_fields f overflow_codes overflow_tables by blast
  have "encode_mcu huge_white 0 32768 fresh_state = Inr st'"
    using st'(1) by (simp add: encode_mcu_gray overflow_env_fields st1_def)
  then show ?thesis using st'(2) overflow_bytes(1) by simp
qed

lemma overflow_mcu_bright:
  "\<exists>st'. encode_mcu huge_gray 0 32768 fresh_state = Inr st' \<and>
     take 8 (sink (s_writer st')) = [0xF7, 0xFF, 0, 0x8F, 0xFF, 0, 0xB3, 0xFF]"
proof -
  define st1 where "st1 = fill_block huge_gray 0 32768 0 0 fresh_state"
  have f: "s_Y st1 = replicate 8 127 @ replicate 56 (- 128)" "s_writer st1 = new_BitWriter"
    "s_lastYDC st1 = 0"
    unfolding st1_def by (rule overflow_blocks overflow_state)+
  have len: "length (e_quantized0 huge_gray) = 64" by (simp add: overflow_env_fields)
  have "\<exists>st'. encode_Y huge_gray st1 = Inr st' \<and>
      s_writer st' = foldl put_bits (s_writer st1)
        (spec_dc_codes (fst (huffman (e_K huge_gray) True))
           (round_int (e_fp huge_gray)
              (dct_scale (e_fp huge_gray) (e_scaled_luminance huge_gray) (s_Y st1) 0)
              - sint (s_lastYDC st1)) @
         spec_ac_codes (snd (huffman (e_K huge_gray) True)) 0
           (map sint (drop 1
              (0 # map (\<lambda>i. if ZigZagInv ! i < 8 then 127 else - 128) [1..<64] :: i16 list))))"
  proof (rule encode_Y_codes [OF len])
    show "quantize (e_fp huge_gray)
        (map (dct_scale (e_fp huge_gray) (e_scaled_luminance huge_gray) (s_Y st1)) [0..<64])
        (e_quantized0 huge_gray) =
          (0 # map (\<lambda>i. if ZigZagInv ! i < 8 then 127 else - 128) [1..<64], 63)"
      unfolding overflow_env_fields f by (rule overflow_quantized(2))
    show "\<forall>j. 1 \<le> j \<and> j < 64 \<longrightarrow>
       \<bar>sint ((0 # map (\<lambda>i. if ZigZagInv ! i < 8 then 127 else - 128) [1..<64] :: i16 list) ! j)\<bar>
         < 2048"
      by (rule overflow_ranges(2))
    show "\<bar>round_int (e_fp huge_gray)
              (dct_scale (e_fp huge_gray) (e_scaled_luminance huge_gray) (s_Y st1) 0)
              - sint (s_lastYDC st1)\<bar> < 2048"
      unfolding overflow_env_fields f by (rule overflow_dc(2))
  qed
  then obtain st' where st': "encode_Y huge_gray st1 = Inr st'"
    "s_writer st' = foldl put_bits new_BitWriter
       ([\<lparr>code = 30, numBits = 5\<rparr>, \<lparr>code = 127, numBits = 7\<rparr>] @
        concat (map (\<lambda>i. if ZigZagInv ! i < 8
                          then [\<lparr>code = 248, numBits = 8\<rparr>, \<lparr>code = 127, numBits = 7\<rparr>]
                          else [\<lparr>code = 1014, numBits = 10\<rparr>, \<lparr>code = 127, numBits = 8\<rparr>])
                  [1..<64]))"
    unfolding overflow_env_fields f overflow_codes overflow_tables by blast
  have "encode_mcu huge_gray 0 32768 fresh_state = Inr st'"
    using st'(1) by (simp add: encode_mcu_gray overflow_env_fields st1_def)
  then show ?thesis using st'(2) overflow_bytes(2) by simp
qed

text \<open>
  C8. Claimed: two runs on the same (pixels, width, height, is\_rgb, downsample, quality,
  comment) pass the same bytes to the sink. For a grayscale image of 65535 x 32770 pixels
  they need not. Take two memories that hold the same buffer, \<open>0xFF\<close> at every offset
  from 0 on, and differ in front of it: one holds \<open>0xFF\<close> there, the other 0. In the MCU
  at \<open>mcuY = 32768\<close>, \<open>mcuX = 0\<close> the pixel position of row 32769 leaves the range of
  \<open>int\<close> and the read lands in front of the buffer: \<open>Y[1][0]\<close> is 127 in one run and
  -128 in the other, and the bytes that encoding this MCU appends to a fresh writer differ
  from the seventh byte on.
\<close>

theorem output_depends_on_memory_in_front:
  "white_image (max 0 p) = bright_image (max 0 p) \<and>
   huge_white = huge_gray\<lparr>e_pixels := white_image\<rparr> \<and>
   s_Y (fill_block huge_white 0 32768 0 0 fresh_state) ! (1 * 8 + 0) = 127 \<and>
   s_Y (fill_block huge_gray 0 32768 0 0 fresh_state) ! (1 * 8 + 0) = - 128 \<and>
   \<not> isl (encode_mcu huge_white 0 32768 fresh_state) \<and>
   \<not> isl (encode_mcu huge_gray 0 32768 fresh_state) \<and>
   take 8 (sink (s_writer (projr (encode_mcu huge_white 0 32768 fresh_state)))) =
     [0xF7, 0xFF, 0, 0x8F, 0xFF, 0, 0x1F, 0xFE] \<and>
   take 8 (sink (s_writer (projr (encode_mcu huge_gray 0 32768 fresh_state)))) =
     [0xF7, 0xFF, 0, 0x8F, 0xFF, 0, 0xB3, 0xFF]"
proof -
  obtain a where a: "encode_mcu huge_white 0 32768 fresh_state = Inr a"
    "take 8 (sink (s_writer a)) = [0xF7, 0xFF, 0, 0x8F, 0xFF, 0, 0x1F, 0xFE]"
    using overflow_mcu_white by blast
  obtain b where b: "encode_mcu huge_gray 0 32768 fresh_state = Inr b"
    "take 8 (sink (s_writer b)) = [0xF7, 0xFF, 0, 0x8F, 0xFF, 0, 0xB3, 0xFF]"
    using overflow_mcu_bright by blast
  have "white_image (max 0 p) = bright_image (max 0 p)"
    by (simp add: white_image_def bright_image_def)
  moreover have "huge_white = huge_gray\<lparr>e_pixels := white_image\<rparr>"
    by (simp add: huge_white_def huge_gray_def scan_env_of_def)
  moreover have "s_Y (fill_block huge_white 0 32768 0 0 fresh_state) ! (1 * 8 + 0) = 127"
    "s_Y (fill_block huge_gray 0 32768 0 0 fresh_state) ! (1 * 8 + 0) = - 128"
    unfolding overflow_blocks by (simp_all add: nth_append)
  ultimately show ?thesis using a b by simp
qed

section \<open>Argument checks of writeJpegQuality\<close>

lemma quality_check_passes:
  "1 < (q :: u8) \<and> q \<le> 100 \<longleftrightarrow> 2 \<le> uint q \<and> uint q \<le> 100"
  by (auto simp: word_less_def word_le_def)

text \<open>
  C1. Claimed: encoding succeeds exactly for quality in \<open>[1,100]\<close>; quality 1 is
  accepted. The code tests \<open>quality_ > 1\<close>: at quality 1 it throws the exception
  whose message itself names the range \<open>[1..100]\<close>, whatever the other arguments, and
  nothing reaches the sink.
\<close>

theorem quality_1_throws:
  "writeJpegQuality K fp u pixels width height downsample isRGB 1 comment =
     Inr (Threw ''Quality must be in [1..100]'', [])"
  by (simp add: writeJpegQuality_def)

text \<open>
  C9. writeJpegQuality tests the quality first: a quality outside the accepted range
  throws, whatever the pixel pointer and the dimensions are. With an accepted quality, a
  null pixel pointer or a zero width or height makes the call return \<open>false\<close>
  without throwing. In all these cases the sink has received no byte.
\<close>

theorem argument_errors:
  "(\<not> (1 < q \<and> q \<le> 100) \<longrightarrow>
      writeJpegQuality K fp u pixels width height downsample isRGB q comment =
        Inr (Threw ''Quality must be in [1..100]'', [])) \<and>
   (1 < q \<and> q \<le> 100 \<and> (pixels = None \<or> width = 0 \<or> height = 0) \<longrightarrow>
      writeJpegQuality K fp u pixels width height downsample isRGB q comment =
        Inr (Returned False, []))"
  by (auto simp: writeJpegQuality_def Let_def split: option.splits)

theorem argument_errors_witness:
  "writeJpegQuality annexK int_ops zero_uninitialised None 0 0 False False 0 [] =
     Inr (Threw ''Quality must be in [1..100]'', []) \<and>
   writeJpegQuality annexK int_ops zero_uninitialised None 0 0 False False 101 [] =
     Inr (Threw ''Quality must be in [1..100]'', []) \<and>
   writeJpegQuality annexK int_ops zero_uninitialised None 8 8 False False 50 [] =
     Inr (Returned False, []) \<and>
   writeJpegQuality annexK int_ops zero_uninitialised (Some (\<lambda>i. 0)) 0 8 False False 50 [] =
     Inr (Returned False, []) \<and>
   writeJpegQuality annexK int_ops zero_uninitialised (Some (\<lambda>i. 0)) 8 0 False False 50 [] =
     Inr (Returned False, [])"
  using
    argument_errors [of 0 annexK int_ops zero_uninitialised None 0 0 False False "[]"]
    argument_errors [of 101 annexK int_ops zero_uninitialised None 0 0 False False "[]"]
    argument_errors [of 50 annexK int_ops zero_uninitialised None 8 8 False False "[]"]
    argument_errors [of 50 annexK int_ops zero_uninitialised "Some (\<lambda>i. 0)" 0 8 False False "[]"]
    argument_errors [of 50 annexK int_ops zero_uninitialised "Some (\<lambda>i. 0)" 8 0 False False "[]"]
  by simp


subsection \<open>The comment segment\<close>

















end
